theory Spec2Isabelle
  imports Main "HOL-Library.Sublist"
begin

section \<open>Data model\<close>

text \<open>
  The node manager of the audio engine (\<^verbatim>\<open>AudioNodeManager.cpp\<close>) keeps three vectors of
  shared pointers, a channel of pending graph events and a destructor that takes retired
  nodes. Shared pointers are modelled by the identity of the object they point to; the
  objects themselves live in a store.
\<close>

datatype node_ref = Node nat

datatype param_ref = Param nat

text \<open>
  Modelled from the spec: the playback state of a source node
  (\<^verbatim>\<open>AudioScheduledSourceNode.h\<close> is not part of the sources); the manager only asks
  \<^verbatim>\<open>isUnscheduled()\<close> and \<^verbatim>\<open>isFinished()\<close>.
\<close>

datatype PlaybackState = UNSCHEDULED | SCHEDULED | PLAYING | FINISHED

text \<open>
  Modelled from the spec: the part of a node object the manager reads or changes
  (\<^verbatim>\<open>AudioNode.h\<close> is not part of the sources). \<open>holders\<close> is the number of shared
  pointers to the node that are held outside this subsystem (wrappers of the API, other
  threads); \<open>outputParams\<close> are the parameters the node is bound to. The node's outgoing
  edges to other nodes are kept in the graph's edge list, see below.
\<close>

record AudioNode =
  holders :: nat
  playbackState :: PlaybackState
  outputParams :: "param_ref list"

definition isUnscheduled :: "AudioNode \<Rightarrow> bool" where
  "isUnscheduled n = (playbackState n = UNSCHEDULED)"

definition isFinished :: "AudioNode \<Rightarrow> bool" where
  "isFinished n = (playbackState n = FINISHED)"

datatype ConnectionType = CONNECT | DISCONNECT | DISCONNECT_ALL | ADD

text \<open>
  The event's tagged union: the constructor is the \<^verbatim>\<open>payloadType\<close> tag, its arguments
  the populated variant of \<^verbatim>\<open>payload\<close>.
\<close>

datatype EventPayload =
    NODES node_ref node_ref
  | PARAMS node_ref param_ref
  | SOURCE_NODE node_ref
  | AUDIO_PARAM param_ref
  | NODE node_ref

record Event =
  etype :: ConnectionType
  payload :: EventPayload

text \<open>The shared pointers to nodes that an event owns while it is alive.\<close>

fun payload_refs :: "EventPayload \<Rightarrow> node_ref list" where
  "payload_refs (NODES from to) = [from, to]"
| "payload_refs (PARAMS from to) = [from]"
| "payload_refs (SOURCE_NODE n) = [n]"
| "payload_refs (AUDIO_PARAM p) = []"
| "payload_refs (NODE n) = [n]"

text \<open>
  The calls the manager makes on its collaborators (the nodes and the destructor), in
  the order it makes them.
\<close>

datatype call =
    ConnectNode node_ref node_ref
  | DisconnectNode node_ref node_ref
  | ConnectParam node_ref param_ref
  | DisconnectParam node_ref param_ref
  | Cleanup node_ref
  | TryAddNodeForDeconstruction node_ref bool

datatype error = AssertionFailed string

text \<open>
  Modelled from the spec: the deferred destructor's channel of retired nodes
  (\<^verbatim>\<open>AudioNodeDestructor.cpp\<close> and \<^verbatim>\<open>SpscChannel.hpp\<close> are not part of the sources):
  a bounded queue of shared pointers.
\<close>

record AudioNodeDestructor =
  queue :: "node_ref list"
  capacity :: nat

text \<open>
  The manager's members, and the part of the world it acts on: the store of node objects
  (\<open>heap\<close>), the node-to-node edges of the graph (\<open>edges\<close>: the pair \<open>(a, b)\<close> is the
  shared pointer to \<open>b\<close> in the \<^verbatim>\<open>outputNodes_\<close> of \<open>a\<close>), and the calls made so far.
\<close>

record AudioNodeManager =
  sourceNodes :: "node_ref list"
  processingNodes :: "node_ref list"
  audioParams :: "param_ref list"
  receiver :: "Event list"
  nodeDeconstructor :: AudioNodeDestructor
  heap :: "node_ref \<Rightarrow> AudioNode"
  edges :: "(node_ref \<times> node_ref) list"
  calls :: "call list"

text \<open>
  The manager as its constructor leaves it (empty vectors, empty channel), over a given
  store of node objects, a graph without edges and a destructor channel of the given
  capacity.
\<close>

definition init :: "nat \<Rightarrow> (node_ref \<Rightarrow> AudioNode) \<Rightarrow> AudioNodeManager" where
  "init cap h =
     \<lparr>sourceNodes = [], processingNodes = [], audioParams = [], receiver = [],
      nodeDeconstructor = \<lparr>queue = [], capacity = cap\<rparr>, heap = h, edges = [], calls = []\<rparr>"

section \<open>Collaborators\<close>

text \<open>
  Modelled from the spec: \<^verbatim>\<open>outputNodes_\<close> of a node, its set of outgoing connections, in
  iteration order.
\<close>

definition outputNodes :: "AudioNodeManager \<Rightarrow> node_ref \<Rightarrow> node_ref list" where
  "outputNodes m a = map snd (filter (\<lambda>e. fst e = a) (edges m))"

text \<open>
  \<^verbatim>\<open>shared_ptr::use_count()\<close>: the number of shared pointers that own the node. They are
  held outside the subsystem, by the entries of the two node vectors, by the edges into
  the node, by the events waiting in the channel and by the destructor's channel.
\<close>

definition use_count :: "AudioNodeManager \<Rightarrow> node_ref \<Rightarrow> nat" where
  "use_count m n =
     holders (heap m n) + count_list (sourceNodes m) n + count_list (processingNodes m) n
     + count_list (queue (nodeDeconstructor m)) n
     + count_list (map snd (edges m)) n
     + count_list (concat (map (\<lambda>v. payload_refs (payload v)) (receiver m))) n"

text \<open>
  Modelled from the spec: \<^verbatim>\<open>AudioNode::connectNode\<close> installs the edge node to node
  (set semantics), \<^verbatim>\<open>AudioNode::disconnectNode\<close> removes it.
\<close>

definition connectNode :: "node_ref \<Rightarrow> node_ref \<Rightarrow> AudioNodeManager \<Rightarrow> AudioNodeManager" where
  "connectNode from to m =
     m\<lparr>edges := List.insert (from, to) (edges m), calls := calls m @ [ConnectNode from to]\<rparr>"

definition disconnectNode :: "node_ref \<Rightarrow> node_ref \<Rightarrow> AudioNodeManager \<Rightarrow> AudioNodeManager" where
  "disconnectNode from to m =
     m\<lparr>edges := removeAll (from, to) (edges m), calls := calls m @ [DisconnectNode from to]\<rparr>"

text \<open>
  Modelled from the spec: \<^verbatim>\<open>AudioNode::connectParam\<close> installs the binding node to
  parameter, \<^verbatim>\<open>AudioNode::disconnectParam\<close> removes it.
\<close>

definition connectParam :: "node_ref \<Rightarrow> param_ref \<Rightarrow> AudioNodeManager \<Rightarrow> AudioNodeManager" where
  "connectParam from to m =
     m\<lparr>heap := (heap m)(from := (heap m from)\<lparr>outputParams := List.insert to (outputParams (heap m from))\<rparr>),
       calls := calls m @ [ConnectParam from to]\<rparr>"

definition disconnectParam :: "node_ref \<Rightarrow> param_ref \<Rightarrow> AudioNodeManager \<Rightarrow> AudioNodeManager" where
  "disconnectParam from to m =
     m\<lparr>heap := (heap m)(from := (heap m from)\<lparr>outputParams := removeAll to (outputParams (heap m from))\<rparr>),
       calls := calls m @ [DisconnectParam from to]\<rparr>"

text \<open>
  Modelled from the spec: \<^verbatim>\<open>AudioNode::cleanup\<close> synchronously severs the node's
  internal references: its outgoing edges and parameter bindings are released, which
  lowers the count of every node an edge pointed to. It is idempotent and cannot fail.
\<close>

definition AudioNode_cleanup :: "node_ref \<Rightarrow> AudioNodeManager \<Rightarrow> AudioNodeManager" where
  "AudioNode_cleanup n m =
     m\<lparr>heap := (heap m)(n := (heap m n)\<lparr>outputParams := []\<rparr>),
       edges := filter (\<lambda>e. fst e \<noteq> n) (edges m),
       calls := calls m @ [Cleanup n]\<rparr>"

text \<open>
  Modelled from the spec: \<^verbatim>\<open>AudioNodeDestructor::tryAddNodeForDeconstruction\<close>, the
  non-blocking attempt to enqueue a copy of the shared pointer: false when the channel is
  full.
\<close>

definition tryAddNodeForDeconstruction ::
  "node_ref \<Rightarrow> AudioNodeManager \<Rightarrow> bool \<times> AudioNodeManager" where
  "tryAddNodeForDeconstruction n m =
     (let d = nodeDeconstructor m in
      if length (queue d) < capacity d
      then (True, m\<lparr>nodeDeconstructor := d\<lparr>queue := queue d @ [n]\<rparr>,
                    calls := calls m @ [TryAddNodeForDeconstruction n True]\<rparr>)
      else (False, m\<lparr>calls := calls m @ [TryAddNodeForDeconstruction n False]\<rparr>))"

text \<open>
  Modelled from the spec: the destructor's background loop receives handles from its
  channel and releases them; \<open>process k\<close> is the loop taking the \<open>k\<close> oldest handles.
\<close>

definition process :: "nat \<Rightarrow> AudioNodeManager \<Rightarrow> AudioNodeManager" where
  "process k m =
     m\<lparr>nodeDeconstructor := (nodeDeconstructor m)\<lparr>queue := drop k (queue (nodeDeconstructor m))\<rparr>\<rparr>"

text \<open>
  A holder outside the subsystem copies or drops a shared pointer to a node.
\<close>

definition acquire :: "node_ref \<Rightarrow> AudioNodeManager \<Rightarrow> AudioNodeManager" where
  "acquire n m = m\<lparr>heap := (heap m)(n := (heap m n)\<lparr>holders := Suc (holders (heap m n))\<rparr>)\<rparr>"

definition release :: "node_ref \<Rightarrow> AudioNodeManager \<Rightarrow> AudioNodeManager" where
  "release n m = m\<lparr>heap := (heap m)(n := (heap m n)\<lparr>holders := holders (heap m n) - 1\<rparr>)\<rparr>"

text \<open>
  Modelled from the spec: the bounded single-producer/single-consumer channel
  (\<^verbatim>\<open>SpscChannel.hpp\<close> is not part of the sources), as the list of the values in flight,
  oldest first. \<^verbatim>\<open>send\<close> appends (under \<^verbatim>\<open>WAIT_ON_FULL\<close> nothing is ever dropped);
  the non-blocking poll \<^verbatim>\<open>try_receive\<close> reports \<^verbatim>\<open>CHANNEL_EMPTY\<close> or hands over the
  oldest value.
\<close>

datatype 'a ResponseStatus = SUCCESS 'a | CHANNEL_EMPTY

definition send :: "'a \<Rightarrow> 'a list \<Rightarrow> 'a list" where
  "send v ch = ch @ [v]"

fun try_receive :: "'a list \<Rightarrow> 'a ResponseStatus \<times> 'a list" where
  "try_receive [] = (CHANNEL_EMPTY, [])"
| "try_receive (v # ch) = (SUCCESS v, ch)"

text \<open>
  Modelled from the spec: iterators of \<^verbatim>\<open>outputNodes_\<close>, a set of outgoing connections.
  An iterator designates an element of the container (\<open>None\<close> is \<^verbatim>\<open>end()\<close>), and
  removing an element leaves the iterators of the other elements valid.
\<close>

definition std_begin :: "'a list \<Rightarrow> 'a option" where
  "std_begin xs = (case xs of [] \<Rightarrow> None | x # _ \<Rightarrow> Some x)"

fun std_next :: "'a list \<Rightarrow> 'a \<Rightarrow> 'a option" where
  "std_next [] it = None"
| "std_next (x # xs) it = (if x = it then std_begin xs else std_next xs it)"

text \<open>\<^verbatim>\<open>vector::erase(it)\<close>: the elements behind the erased one move up.\<close>

definition erase :: "nat \<Rightarrow> 'a list \<Rightarrow> 'a list" where
  "erase i xs = take i xs @ drop (Suc i) xs"

section \<open>The node manager\<close>

subsection \<open>Producer side\<close>

definition addPendingNodeConnection ::
  "node_ref \<Rightarrow> node_ref \<Rightarrow> ConnectionType \<Rightarrow> AudioNodeManager \<Rightarrow> AudioNodeManager" where
  "addPendingNodeConnection from to t m =
     m\<lparr>receiver := send \<lparr>etype = t, payload = NODES from to\<rparr> (receiver m)\<rparr>"

definition addPendingParamConnection ::
  "node_ref \<Rightarrow> param_ref \<Rightarrow> ConnectionType \<Rightarrow> AudioNodeManager \<Rightarrow> AudioNodeManager" where
  "addPendingParamConnection from to t m =
     m\<lparr>receiver := send \<lparr>etype = t, payload = PARAMS from to\<rparr> (receiver m)\<rparr>"

definition addProcessingNode :: "node_ref \<Rightarrow> AudioNodeManager \<Rightarrow> AudioNodeManager" where
  "addProcessingNode node m =
     m\<lparr>receiver := send \<lparr>etype = ADD, payload = NODE node\<rparr> (receiver m)\<rparr>"


definition addAudioParam :: "param_ref \<Rightarrow> AudioNodeManager \<Rightarrow> AudioNodeManager" where
  "addAudioParam param m =
     m\<lparr>receiver := send \<lparr>etype = ADD, payload = AUDIO_PARAM param\<rparr> (receiver m)\<rparr>"

subsection \<open>Event handlers and the drain\<close>

text \<open>A failed \<^verbatim>\<open>assert\<close> is the error result.\<close>

definition handleConnectEvent :: "Event \<Rightarrow> AudioNodeManager \<Rightarrow> error + AudioNodeManager" where
  "handleConnectEvent event m =
     (case payload event of
        NODES from to \<Rightarrow> Inr (connectNode from to m)
      | PARAMS from to \<Rightarrow> Inr (connectParam from to m)
      | _ \<Rightarrow> Inl (AssertionFailed ''Invalid payload type for connect event''))"

definition handleDisconnectEvent :: "Event \<Rightarrow> AudioNodeManager \<Rightarrow> error + AudioNodeManager" where
  "handleDisconnectEvent event m =
     (case payload event of
        NODES from to \<Rightarrow> Inr (disconnectNode from to m)
      | PARAMS from to \<Rightarrow> Inr (disconnectParam from to m)
      | _ \<Rightarrow> Inl (AssertionFailed ''Invalid payload type for disconnect event''))"

text \<open>
  The loop of \<^verbatim>\<open>handleDisconnectAllEvent\<close>: \<open>it\<close> is the iterator, \<open>next\<close> is taken
  before the edge at \<open>it\<close> is disconnected.
\<close>

function disconnectAll_loop ::
  "node_ref \<Rightarrow> node_ref option \<Rightarrow> AudioNodeManager \<Rightarrow> AudioNodeManager" where
  "disconnectAll_loop from None m = m"
| "disconnectAll_loop from (Some x) m =
     (let next = std_next (outputNodes m from) x
      in disconnectAll_loop from next (disconnectNode from x m))"
  by pat_completeness auto

termination
proof (relation "measure (\<lambda>(from, it, m).
         2 * length (outputNodes m from) + (case it of None \<Rightarrow> 0 | Some _ \<Rightarrow> 1))")
  show "wf (measure (\<lambda>(from, it, m).
         2 * length (outputNodes m from) + (case it of None \<Rightarrow> 0 | Some _ \<Rightarrow> (1::nat))))"
    by simp
next
  fix src :: node_ref and x :: node_ref and m :: AudioNodeManager and nxt
  assume nxt: "nxt = std_next (outputNodes m src) x"
  have out: "outputNodes (disconnectNode src x m) src = removeAll x (outputNodes m src)"
  proof -
    have "map snd (filter (\<lambda>e. fst e = src) (removeAll (src, x) es))
            = removeAll x (map snd (filter (\<lambda>e. fst e = src) es))"
      for es :: "(node_ref \<times> node_ref) list"
      by (induction es) auto
    then show ?thesis
      by (simp add: outputNodes_def disconnectNode_def)
  qed
  show "((src, nxt, disconnectNode src x m), (src, Some x, m))
        \<in> measure (\<lambda>(from, it, m).
            2 * length (outputNodes m from) + (case it of None \<Rightarrow> 0 | Some _ \<Rightarrow> 1))"
  proof (cases "x \<in> set (outputNodes m src)")
    case True
    have "y \<in> set ys \<Longrightarrow> length (removeAll y ys) < length ys" for y and ys :: "node_ref list"
      by (induction ys) (auto simp: less_Suc_eq_le)
    with True have "length (removeAll x (outputNodes m src)) < length (outputNodes m src)"
      by simp
    then show ?thesis
      by (auto simp: out split: option.splits)
  next
    case False
    have "y \<notin> set ys \<Longrightarrow> std_next ys y = None" for y and ys :: "node_ref list"
      by (induction ys) auto
    with False have "nxt = None"
      using nxt by simp
    moreover from False have "removeAll x (outputNodes m src) = outputNodes m src"
      by simp
    ultimately show ?thesis
      by (simp add: out)
  qed
qed

definition handleDisconnectAllEvent ::
  "Event \<Rightarrow> AudioNodeManager \<Rightarrow> error + AudioNodeManager" where
  "handleDisconnectAllEvent event m =
     (case payload event of
        NODES from to \<Rightarrow> Inr (disconnectAll_loop from (std_begin (outputNodes m from)) m)
      | _ \<Rightarrow> Inl (AssertionFailed ''event->payloadType == EventPayloadType::NODES''))"

definition handleAddToDeconstructionEvent ::
  "Event \<Rightarrow> AudioNodeManager \<Rightarrow> error + AudioNodeManager" where
  "handleAddToDeconstructionEvent event m =
     (case payload event of
        NODE node \<Rightarrow> Inr (m\<lparr>processingNodes := processingNodes m @ [node]\<rparr>)
      | SOURCE_NODE sourceNode \<Rightarrow> Inr (m\<lparr>sourceNodes := sourceNodes m @ [sourceNode]\<rparr>)
      | AUDIO_PARAM audioParam \<Rightarrow> Inr (m\<lparr>audioParams := audioParams m @ [audioParam]\<rparr>)
      | _ \<Rightarrow> Inl (AssertionFailed ''Unknown event payload type''))"

text \<open>The \<^verbatim>\<open>switch\<close> on the event's type in \<^verbatim>\<open>settlePendingConnections\<close>.\<close>

definition dispatch :: "Event \<Rightarrow> AudioNodeManager \<Rightarrow> error + AudioNodeManager" where
  "dispatch v m =
     (case etype v of
        CONNECT \<Rightarrow> handleConnectEvent v m
      | DISCONNECT \<Rightarrow> handleDisconnectEvent v m
      | DISCONNECT_ALL \<Rightarrow> handleDisconnectAllEvent v m
      | ADD \<Rightarrow> handleAddToDeconstructionEvent v m)"

text \<open>
  The drain loop: poll until the channel reports empty. The event leaves the channel when
  it is received and is destroyed when its handler returns; no count is read in between.
\<close>

function settlePendingConnections :: "AudioNodeManager \<Rightarrow> error + AudioNodeManager" where
  "settlePendingConnections m =
     (case try_receive (receiver m) of
        (CHANNEL_EMPTY, _) \<Rightarrow> Inr m
      | (SUCCESS v, ch) \<Rightarrow>
          (case dispatch v (m\<lparr>receiver := ch\<rparr>) of
             Inl e \<Rightarrow> Inl e
           | Inr m' \<Rightarrow> settlePendingConnections m'))"
  by pat_completeness auto

termination
proof (relation "measure (\<lambda>m. length (receiver m))")
  show "wf (measure (\<lambda>m. length (receiver m)))"
    by simp
next
  fix m :: AudioNodeManager and st ch v m'
  assume rcv: "(st, ch) = try_receive (receiver m)" "st = SUCCESS v"
    and dsp: "dispatch v (m\<lparr>receiver := ch\<rparr>) = Inr m'"
  from rcv have "receiver m = v # ch"
    by (cases "receiver m") simp_all
  moreover have "receiver (disconnectAll_loop src it k) = receiver k" for src it k
    by (induction src it k rule: disconnectAll_loop.induct)
       (simp_all add: Let_def disconnectNode_def)
  with dsp have "receiver m' = ch"
    by (auto simp: dispatch_def handleConnectEvent_def handleDisconnectEvent_def
          handleDisconnectAllEvent_def handleAddToDeconstructionEvent_def
          connectNode_def connectParam_def disconnectNode_def disconnectParam_def
        split: ConnectionType.splits EventPayload.splits)
  ultimately show "(m', m) \<in> measure (\<lambda>m. length (receiver m))"
    by simp
qed

declare settlePendingConnections.simps [simp del]

subsection \<open>The sweep\<close>

text \<open>
  The first loop of \<^verbatim>\<open>prepareNodesForDestruction\<close>; the iterator \<^verbatim>\<open>sNodesIt\<close> is the
  index \<open>i\<close> into the vector. The count is read in the state the loop has reached.
\<close>

function sweepSourceNodes :: "nat \<Rightarrow> AudioNodeManager \<Rightarrow> AudioNodeManager" where
  "sweepSourceNodes i m =
     (if i < length (sourceNodes m) then
        (let n = sourceNodes m ! i in
         if use_count m n = 1 \<and> (isUnscheduled (heap m n) \<or> isFinished (heap m n)) then
           (let r = tryAddNodeForDeconstruction n (AudioNode_cleanup n m) in
            if fst r
            then sweepSourceNodes i ((snd r)\<lparr>sourceNodes := erase i (sourceNodes (snd r))\<rparr>)
            else sweepSourceNodes (Suc i) (snd r))
         else sweepSourceNodes (Suc i) m)
      else m)"
  by pat_completeness auto

termination
  by (relation "measure (\<lambda>(i, m). length (sourceNodes m) - i)")
     (auto simp: tryAddNodeForDeconstruction_def AudioNode_cleanup_def Let_def erase_def)

text \<open>The second loop, over \<^verbatim>\<open>processingNodes_\<close>, with iterator \<^verbatim>\<open>pNodesIt\<close>.\<close>

function sweepProcessingNodes :: "nat \<Rightarrow> AudioNodeManager \<Rightarrow> AudioNodeManager" where
  "sweepProcessingNodes i m =
     (if i < length (processingNodes m) then
        (let n = processingNodes m ! i in
         if use_count m n = 1 then
           (let r = tryAddNodeForDeconstruction n (AudioNode_cleanup n m) in
            if fst r
            then sweepProcessingNodes i ((snd r)\<lparr>processingNodes := erase i (processingNodes (snd r))\<rparr>)
            else sweepProcessingNodes (Suc i) (snd r))
         else sweepProcessingNodes (Suc i) m)
      else m)"
  by pat_completeness auto

termination
  by (relation "measure (\<lambda>(i, m). length (processingNodes m) - i)")
     (auto simp: tryAddNodeForDeconstruction_def AudioNode_cleanup_def Let_def erase_def)

declare sweepSourceNodes.simps [simp del] sweepProcessingNodes.simps [simp del]

definition prepareNodesForDestruction :: "AudioNodeManager \<Rightarrow> AudioNodeManager" where
  "prepareNodesForDestruction m = sweepProcessingNodes 0 (sweepSourceNodes 0 m)"

definition preProcessGraph :: "AudioNodeManager \<Rightarrow> error + AudioNodeManager" where
  "preProcessGraph m =
     (case settlePendingConnections m of
        Inl e \<Rightarrow> Inl e
      | Inr m' \<Rightarrow> Inr (prepareNodesForDestruction m'))"

subsection \<open>Shutdown\<close>

text \<open>
  \<^verbatim>\<open>AudioNodeManager::cleanup\<close>: two loops that invoke the cleanup of every tracked
  node, then the three vectors are cleared.
\<close>

definition cleanup :: "AudioNodeManager \<Rightarrow> AudioNodeManager" where
  "cleanup m =
     (let m1 = fold AudioNode_cleanup (sourceNodes m) m;
          m2 = fold AudioNode_cleanup (processingNodes m1) m1
      in m2\<lparr>sourceNodes := [], processingNodes := [], audioParams := []\<rparr>)"

section \<open>Notions used by the claims\<close>

text \<open>The calls made between an earlier state and a later one.\<close>

definition new_calls :: "AudioNodeManager \<Rightarrow> AudioNodeManager \<Rightarrow> call list" where
  "new_calls m m' = drop (length (calls m)) (calls m')"

text \<open>
  The condition under which a loop of the sweep tears a node down, as the loop reads it
  in state \<open>m\<close>: the count is 1 and, in the loop over the source nodes, playback is over
  or was never scheduled.
\<close>

definition qualifies :: "bool \<Rightarrow> AudioNodeManager \<Rightarrow> node_ref \<Rightarrow> bool" where
  "qualifies isSource m n =
     (use_count m n = 1 \<and>
      (if isSource then isUnscheduled (heap m n) \<or> isFinished (heap m n) else True))"

text \<open>A tracked node that meets the teardown condition of the loop over its vector.\<close>

definition selected :: "AudioNodeManager \<Rightarrow> node_ref \<Rightarrow> bool" where
  "selected m n =
     ((n \<in> set (sourceNodes m) \<and> qualifies True m n) \<or>
      (n \<in> set (processingNodes m) \<and> qualifies False m n))"

text \<open>The destructor's channel is full.\<close>

definition channel_full :: "AudioNodeManager \<Rightarrow> bool" where
  "channel_full m = (capacity (nodeDeconstructor m) \<le> length (queue (nodeDeconstructor m)))"

text \<open>
  The calls of a list of attempts: for each one the node's cleanup, immediately followed
  by the attempt to hand the node to the destructor.
\<close>

definition pairs_log :: "(node_ref \<times> bool) list \<Rightarrow> call list" where
  "pairs_log zs = concat (map (\<lambda>(x, ok). [Cleanup x, TryAddNodeForDeconstruction x ok]) zs)"

section \<open>The passes by recursion on the vector\<close>

text \<open>The vector a loop runs over: the source nodes or the processing nodes.\<close>

definition vec :: "bool \<Rightarrow> AudioNodeManager \<Rightarrow> node_ref list" where
  "vec b m = (if b then sourceNodes m else processingNodes m)"

definition set_vec :: "bool \<Rightarrow> node_ref list \<Rightarrow> AudioNodeManager \<Rightarrow> AudioNodeManager" where
  "set_vec b v m = (if b then m\<lparr>sourceNodes := v\<rparr> else m\<lparr>processingNodes := v\<rparr>)"

text \<open>The body of both loops for a node that qualifies: its cleanup, then the attempt.\<close>

definition attempt :: "node_ref \<Rightarrow> AudioNodeManager \<Rightarrow> bool \<times> AudioNodeManager" where
  "attempt n m = tryAddNodeForDeconstruction n (AudioNode_cleanup n m)"

text \<open>
  One loop by recursion on the entries still to visit: \<open>kept\<close> are the entries in front
  of the iterator, and the vector of the state is \<open>kept\<close> followed by the entries to visit.
\<close>

fun pass :: "bool \<Rightarrow> node_ref list \<Rightarrow> node_ref list \<Rightarrow> AudioNodeManager \<Rightarrow> AudioNodeManager" where
  "pass b kept [] m = m"
| "pass b kept (n # ns) m =
     (if qualifies b m n then
        (if fst (attempt n m) then pass b kept ns (set_vec b (kept @ ns) (snd (attempt n m)))
         else pass b (kept @ [n]) ns (snd (attempt n m)))
      else pass b (kept @ [n]) ns m)"

text \<open>The retire attempts of one loop, with their outcomes, in order.\<close>

fun attempts :: "bool \<Rightarrow> node_ref list \<Rightarrow> node_ref list \<Rightarrow> AudioNodeManager \<Rightarrow> (node_ref \<times> bool) list" where
  "attempts b kept [] m = []"
| "attempts b kept (n # ns) m =
     (if qualifies b m n then
        (if fst (attempt n m)
         then (n, True) # attempts b kept ns (set_vec b (kept @ ns) (snd (attempt n m)))
         else (n, False) # attempts b (kept @ [n]) ns (snd (attempt n m)))
      else attempts b (kept @ [n]) ns m)"

text \<open>The state between the two loops, and the attempts of a whole sweep.\<close>

definition after_sources :: "AudioNodeManager \<Rightarrow> AudioNodeManager" where
  "after_sources m = pass True [] (sourceNodes m) m"

definition sweep_attempts :: "AudioNodeManager \<Rightarrow> (node_ref \<times> bool) list" where
  "sweep_attempts m =
     attempts True [] (sourceNodes m) m @
     attempts False [] (processingNodes m) (after_sources m)"

text \<open>
  The owners of a node other than the edges of the graph and the pending events: the
  holders outside, the entries of the two vectors and the destructor's channel.
\<close>

definition other_owners :: "AudioNodeManager \<Rightarrow> node_ref \<Rightarrow> nat" where
  "other_owners m n =
     holders (heap m n) + count_list (sourceNodes m) n + count_list (processingNodes m) n
     + count_list (queue (nodeDeconstructor m)) n"

definition in_edges :: "AudioNodeManager \<Rightarrow> node_ref \<Rightarrow> nat" where
  "in_edges m n = count_list (map snd (edges m)) n"

definition pending :: "AudioNodeManager \<Rightarrow> node_ref \<Rightarrow> nat" where
  "pending m n = count_list (concat (map (\<lambda>v. payload_refs (payload v)) (receiver m))) n"

section \<open>Further notions used by the claims\<close>

text \<open>
  Between two states a node is untouched when no cleanup of it and no attempt to retire it
  was made, and it has as many entries in the two node vectors as before.
\<close>

definition untouched :: "node_ref \<Rightarrow> AudioNodeManager \<Rightarrow> AudioNodeManager \<Rightarrow> bool" where
  "untouched n m m' =
     (Cleanup n \<notin> set (new_calls m m') \<and>
      TryAddNodeForDeconstruction n True \<notin> set (new_calls m m') \<and>
      TryAddNodeForDeconstruction n False \<notin> set (new_calls m m') \<and>
      count_list (sourceNodes m') n = count_list (sourceNodes m) n \<and>
      count_list (processingNodes m') n = count_list (processingNodes m) n)"

text \<open>
  The identities that the ADD events of a list carry for one of the three vectors, in the
  order of the events; \<open>sel\<close> picks the payload variant of the vector.
\<close>

fun added :: "(EventPayload \<Rightarrow> 'a option) \<Rightarrow> Event list \<Rightarrow> 'a list" where
  "added sel [] = []"
| "added sel (v # vs) =
     (case (if etype v = ADD then sel (payload v) else None) of
        None \<Rightarrow> added sel vs
      | Some x \<Rightarrow> x # added sel vs)"

definition source_of :: "EventPayload \<Rightarrow> node_ref option" where
  "source_of p = (case p of SOURCE_NODE n \<Rightarrow> Some n | _ \<Rightarrow> None)"

definition node_of :: "EventPayload \<Rightarrow> node_ref option" where
  "node_of p = (case p of NODE n \<Rightarrow> Some n | _ \<Rightarrow> None)"

definition param_of :: "EventPayload \<Rightarrow> param_ref option" where
  "param_of p = (case p of AUDIO_PARAM n \<Rightarrow> Some n | _ \<Rightarrow> None)"

section \<open>Example states\<close>

text \<open>An unscheduled node without connections that no handle outside the manager refers to.\<close>

definition idle :: AudioNode where
  "idle = \<lparr>holders = 0, playbackState = UNSCHEDULED, outputParams = []\<rparr>"

text \<open>A manager with nothing tracked and room in the destructor.\<close>

definition idle_manager :: AudioNodeManager where
  "idle_manager = init 4 (\<lambda>_. idle)"

text \<open>
  Scenario C: a finished source node that is still held elsewhere; beside it a processing
  node that is still held elsewhere.
\<close>

definition scenario_C :: AudioNodeManager where
  "scenario_C =
     (init 4 ((\<lambda>_. idle)(Node 0 := idle\<lparr>holders := 1, playbackState := FINISHED\<rparr>,
                          Node 1 := idle\<lparr>holders := 1\<rparr>)))
       \<lparr>sourceNodes := [Node 0], processingNodes := [Node 1]\<rparr>"

text \<open>A playing source node that only the manager holds.\<close>

definition playing_unowned :: AudioNodeManager where
  "playing_unowned =
     (init 4 ((\<lambda>_. idle)(Node 0 := idle\<lparr>playbackState := PLAYING\<rparr>)))
       \<lparr>sourceNodes := [Node 0]\<rparr>"

text \<open>
  A source node connected to a processing node; only the manager's vectors and the edge
  hold the two.
\<close>

definition chain :: AudioNodeManager where
  "chain = idle_manager\<lparr>sourceNodes := [Node 0], processingNodes := [Node 1],
                        edges := [(Node 0, Node 1)]\<rparr>"

text \<open>A node with three outgoing edges.\<close>

definition fan_out :: AudioNodeManager where
  "fan_out = idle_manager\<lparr>edges := [(Node 0, Node 1), (Node 0, Node 2), (Node 0, Node 3)]\<rparr>"

text \<open>
  A source node that qualifies for teardown while the destructor's channel is full.
\<close>

definition retire_blocked :: AudioNodeManager where
  "retire_blocked =
     idle_manager\<lparr>sourceNodes := [Node 0], nodeDeconstructor := \<lparr>queue = [Node 9], capacity = 1\<rparr>\<rparr>"

section \<open>The loops of the sweep are passes\<close>

lemma use_count_split: "use_count m n = other_owners m n + in_edges m n + pending m n"
  by (simp add: use_count_def other_owners_def in_edges_def pending_def)

lemma sweepSourceNodes_end:
  "\<not> i < length (sourceNodes m) \<Longrightarrow> sweepSourceNodes i m = m"
  by (subst sweepSourceNodes.simps) simp

lemma sweepSourceNodes_skip:
  "i < length (sourceNodes m) \<Longrightarrow> \<not> qualifies True m (sourceNodes m ! i) \<Longrightarrow>
   sweepSourceNodes i m = sweepSourceNodes (Suc i) m"
  by (subst sweepSourceNodes.simps) (auto simp: qualifies_def Let_def)

lemma attempt_vectors [simp]:
  "sourceNodes (snd (attempt n m)) = sourceNodes m"
  "processingNodes (snd (attempt n m)) = processingNodes m"
  by (simp_all add: attempt_def tryAddNodeForDeconstruction_def AudioNode_cleanup_def Let_def)

lemma sweepSourceNodes_retire:
  "i < length (sourceNodes m) \<Longrightarrow> qualifies True m (sourceNodes m ! i) \<Longrightarrow>
   sweepSourceNodes i m =
     (if fst (attempt (sourceNodes m ! i) m)
      then sweepSourceNodes i ((snd (attempt (sourceNodes m ! i) m))\<lparr>sourceNodes := erase i (sourceNodes m)\<rparr>)
      else sweepSourceNodes (Suc i) (snd (attempt (sourceNodes m ! i) m)))"
  by (subst sweepSourceNodes.simps) (simp add: qualifies_def Let_def attempt_def [symmetric])

lemma sweepProcessingNodes_end:
  "\<not> i < length (processingNodes m) \<Longrightarrow> sweepProcessingNodes i m = m"
  by (subst sweepProcessingNodes.simps) simp

lemma sweepProcessingNodes_skip:
  "i < length (processingNodes m) \<Longrightarrow> \<not> qualifies False m (processingNodes m ! i) \<Longrightarrow>
   sweepProcessingNodes i m = sweepProcessingNodes (Suc i) m"
  by (subst sweepProcessingNodes.simps) (auto simp: qualifies_def Let_def)

lemma sweepProcessingNodes_retire:
  "i < length (processingNodes m) \<Longrightarrow> qualifies False m (processingNodes m ! i) \<Longrightarrow>
   sweepProcessingNodes i m =
     (if fst (attempt (processingNodes m ! i) m)
      then sweepProcessingNodes i
             ((snd (attempt (processingNodes m ! i) m))\<lparr>processingNodes := erase i (processingNodes m)\<rparr>)
      else sweepProcessingNodes (Suc i) (snd (attempt (processingNodes m ! i) m)))"
  by (subst sweepProcessingNodes.simps) (simp add: qualifies_def Let_def attempt_def [symmetric])

lemma erase_append: "erase (length kept) (kept @ n # ns) = kept @ ns"
  by (simp add: erase_def)

lemma sweepSourceNodes_pass:
  "sourceNodes m = kept @ rest \<Longrightarrow> sweepSourceNodes (length kept) m = pass True kept rest m"
proof (induction rest arbitrary: kept m)
  case Nil
  then show ?case by (simp add: sweepSourceNodes_end)
next
  case (Cons n ns)
  have i: "length kept < length (sourceNodes m)" and n: "sourceNodes m ! length kept = n"
    using Cons.prems by simp_all
  have nxt: "sourceNodes m = (kept @ [n]) @ ns"
    using Cons.prems by simp
  show ?case
  proof (cases "qualifies True m n")
    case False
    then show ?thesis
      using Cons.IH [OF nxt] i n by (simp add: sweepSourceNodes_skip)
  next
    case q: True
    show ?thesis
    proof (cases "fst (attempt n m)")
      case True
      let ?m' = "(snd (attempt n m))\<lparr>sourceNodes := kept @ ns\<rparr>"
      have "sourceNodes ?m' = kept @ ns" by simp
      from Cons.IH [OF this] True q i n Cons.prems show ?thesis
        by (simp add: sweepSourceNodes_retire erase_append set_vec_def)
    next
      case False
      have "sourceNodes (snd (attempt n m)) = (kept @ [n]) @ ns"
        using nxt by simp
      from Cons.IH [OF this] False q i n show ?thesis
        by (simp add: sweepSourceNodes_retire)
    qed
  qed
qed

lemma sweepProcessingNodes_pass:
  "processingNodes m = kept @ rest \<Longrightarrow> sweepProcessingNodes (length kept) m = pass False kept rest m"
proof (induction rest arbitrary: kept m)
  case Nil
  then show ?case by (simp add: sweepProcessingNodes_end)
next
  case (Cons n ns)
  have i: "length kept < length (processingNodes m)" and n: "processingNodes m ! length kept = n"
    using Cons.prems by simp_all
  have nxt: "processingNodes m = (kept @ [n]) @ ns"
    using Cons.prems by simp
  show ?case
  proof (cases "qualifies False m n")
    case False
    then show ?thesis
      using Cons.IH [OF nxt] i n by (simp add: sweepProcessingNodes_skip)
  next
    case q: True
    show ?thesis
    proof (cases "fst (attempt n m)")
      case True
      let ?m' = "(snd (attempt n m))\<lparr>processingNodes := kept @ ns\<rparr>"
      have "processingNodes ?m' = kept @ ns" by simp
      from Cons.IH [OF this] True q i n Cons.prems show ?thesis
        by (simp add: sweepProcessingNodes_retire erase_append set_vec_def)
    next
      case False
      have "processingNodes (snd (attempt n m)) = (kept @ [n]) @ ns"
        using nxt by simp
      from Cons.IH [OF this] False q i n show ?thesis
        by (simp add: sweepProcessingNodes_retire)
    qed
  qed
qed

lemma prepare_eq:
  "prepareNodesForDestruction m = pass False [] (processingNodes (after_sources m)) (after_sources m)"
  using sweepSourceNodes_pass [of m "[]" "sourceNodes m"]
    sweepProcessingNodes_pass [of "after_sources m" "[]" "processingNodes (after_sources m)"]
  by (simp add: prepareNodesForDestruction_def after_sources_def)

section \<open>What one visit does\<close>

lemma pairs_log_simps [simp]:
  "pairs_log [] = []"
  "pairs_log ((x, ok) # zs) = Cleanup x # TryAddNodeForDeconstruction x ok # pairs_log zs"
  "pairs_log (ys @ zs) = pairs_log ys @ pairs_log zs"
  by (simp_all add: pairs_log_def)

lemma vec_simps [simp]:
  "vec True m = sourceNodes m"
  "vec False m = processingNodes m"
  "vec b (set_vec b v m) = v"
  "vec (\<not> b) (set_vec b v m) = vec (\<not> b) m"
  by (auto simp: vec_def set_vec_def)

lemma set_vec_frame [simp]:
  "audioParams (set_vec b v m) = audioParams m"
  "receiver (set_vec b v m) = receiver m"
  "nodeDeconstructor (set_vec b v m) = nodeDeconstructor m"
  "heap (set_vec b v m) = heap m"
  "edges (set_vec b v m) = edges m"
  "calls (set_vec b v m) = calls m"
  by (simp_all add: set_vec_def)

lemma attempt_fst:
  "fst (attempt n m) = (length (queue (nodeDeconstructor m)) < capacity (nodeDeconstructor m))"
  by (simp add: attempt_def tryAddNodeForDeconstruction_def AudioNode_cleanup_def Let_def)

lemma attempt_frame [simp]:
  "audioParams (snd (attempt n m)) = audioParams m"
  "receiver (snd (attempt n m)) = receiver m"
  "capacity (nodeDeconstructor (snd (attempt n m))) = capacity (nodeDeconstructor m)"
  "holders (heap (snd (attempt n m)) x) = holders (heap m x)"
  "playbackState (heap (snd (attempt n m)) x) = playbackState (heap m x)"
  "edges (snd (attempt n m)) = filter (\<lambda>e. fst e \<noteq> n) (edges m)"
  "calls (snd (attempt n m)) = calls m @ [Cleanup n, TryAddNodeForDeconstruction n (fst (attempt n m))]"
  "vec b (snd (attempt n m)) = vec b m"
  by (simp_all add: attempt_def tryAddNodeForDeconstruction_def AudioNode_cleanup_def Let_def vec_def)

lemma attempt_heap_other: "x \<noteq> n \<Longrightarrow> heap (snd (attempt n m)) x = heap m x"
  by (simp add: attempt_def tryAddNodeForDeconstruction_def AudioNode_cleanup_def Let_def)

lemma attempt_queue:
  "queue (nodeDeconstructor (snd (attempt n m))) =
     (if fst (attempt n m) then queue (nodeDeconstructor m) @ [n] else queue (nodeDeconstructor m))"
  by (simp add: attempt_def tryAddNodeForDeconstruction_def AudioNode_cleanup_def Let_def)

lemma attempt_failed_destructor:
  "\<not> fst (attempt n m) \<Longrightarrow> nodeDeconstructor (snd (attempt n m)) = nodeDeconstructor m"
  by (auto simp: attempt_def tryAddNodeForDeconstruction_def AudioNode_cleanup_def Let_def
      split: if_splits)

lemma in_edges_filter: "count_list (map snd (filter P es)) x \<le> count_list (map snd es) x"
  by (induction es) auto

lemma in_edges_attempt: "in_edges (snd (attempt n m)) x \<le> in_edges m x"
  by (simp add: in_edges_def in_edges_filter)

lemma pending_attempt [simp]: "pending (snd (attempt n m)) x = pending m x"
  by (simp add: pending_def)

lemma pending_set_vec [simp]: "pending (set_vec b v m) x = pending m x"
  by (simp add: pending_def)

lemma in_edges_set_vec [simp]: "in_edges (set_vec b v m) x = in_edges m x"
  by (simp add: in_edges_def)

text \<open>
  Neither outcome of a visit changes the owners a node has apart from edges and events:
  a retired entry has moved from the vector to the destructor's channel.
\<close>

lemma other_owners_failed:
  "\<not> fst (attempt n m) \<Longrightarrow> other_owners (snd (attempt n m)) x = other_owners m x"
  by (simp add: other_owners_def attempt_failed_destructor)

lemma other_owners_retired:
  assumes "fst (attempt n m)" and "vec b m = kept @ n # ns"
  shows "other_owners (set_vec b (kept @ ns) (snd (attempt n m))) x = other_owners m x"
proof (cases b)
  case True
  with assms show ?thesis
    by (simp add: other_owners_def set_vec_def attempt_queue)
next
  case False
  with assms show ?thesis
    by (simp add: other_owners_def set_vec_def attempt_queue)
qed

lemma qualifies_playback:
  "qualifies b m x \<Longrightarrow> b \<Longrightarrow> isUnscheduled (heap m x) \<or> isFinished (heap m x)"
  by (simp add: qualifies_def)

lemma qualifies_count: "qualifies b m x \<Longrightarrow> use_count m x = 1"
  by (simp add: qualifies_def)

lemma playback_attempt [simp]:
  "isUnscheduled (heap (snd (attempt n m)) x) = isUnscheduled (heap m x)"
  "isFinished (heap (snd (attempt n m)) x) = isFinished (heap m x)"
  by (simp_all add: isUnscheduled_def isFinished_def)

section \<open>What a pass does\<close>

lemma pass_frame [simp]:
  "audioParams (pass b kept rest m) = audioParams m"
  "receiver (pass b kept rest m) = receiver m"
  "capacity (nodeDeconstructor (pass b kept rest m)) = capacity (nodeDeconstructor m)"
  "holders (heap (pass b kept rest m) x) = holders (heap m x)"
  "playbackState (heap (pass b kept rest m) x) = playbackState (heap m x)"
  "vec (\<not> b) (pass b kept rest m) = vec (\<not> b) m"
  "pending (pass b kept rest m) x = pending m x"
  by (induction rest arbitrary: kept m; simp)+

lemma pass_calls: "calls (pass b kept rest m) = calls m @ pairs_log (attempts b kept rest m)"
  by (induction rest arbitrary: kept m) simp_all

lemma pass_in_edges: "in_edges (pass b kept rest m) x \<le> in_edges m x"
proof (induction rest arbitrary: kept m)
  case Nil
  show ?case by simp
next
  case (Cons n ns)
  have a: "in_edges (pass b k ns (set_vec b v (snd (attempt n m)))) x \<le> in_edges m x" for k v
    using Cons [of k "set_vec b v (snd (attempt n m))"] in_edges_attempt [of n m x] by simp
  have c: "in_edges (pass b k ns (snd (attempt n m))) x \<le> in_edges m x" for k
    using Cons [of k "snd (attempt n m)"] in_edges_attempt [of n m x] by simp
  show ?case
    using a c Cons by simp
qed

lemma pass_other_owners:
  "vec b m = kept @ rest \<Longrightarrow> other_owners (pass b kept rest m) x = other_owners m x"
proof (induction rest arbitrary: kept m)
  case Nil
  show ?case by simp
next
  case (Cons n ns)
  show ?case
  proof (cases "qualifies b m n")
    case False
    then show ?thesis
      using Cons.IH [of m "kept @ [n]"] Cons.prems by simp
  next
    case q: True
    show ?thesis
    proof (cases "fst (attempt n m)")
      case True
      let ?m' = "set_vec b (kept @ ns) (snd (attempt n m))"
      have "other_owners (pass b kept ns ?m') x = other_owners ?m' x"
        by (rule Cons.IH) simp
      then show ?thesis
        using q True other_owners_retired [OF True Cons.prems] by simp
    next
      case False
      have "other_owners (pass b (kept @ [n]) ns (snd (attempt n m))) x
              = other_owners (snd (attempt n m)) x"
        by (rule Cons.IH) (simp add: Cons.prems)
      then show ?thesis
        using q False by (simp add: other_owners_failed)
    qed
  qed
qed

lemma pass_use_count_le:
  "vec b m = kept @ rest \<Longrightarrow> use_count (pass b kept rest m) x \<le> use_count m x"
  using pass_in_edges [of b kept rest m x]
  by (simp add: use_count_split pass_other_owners)

lemma pass_vec:
  "vec b m = kept @ rest \<Longrightarrow>
   \<exists>ys. vec b (pass b kept rest m) = kept @ ys \<and> set ys \<subseteq> set rest"
proof (induction rest arbitrary: kept m)
  case Nil
  then show ?case by simp
next
  case (Cons n ns)
  show ?case
  proof (cases "qualifies b m n")
    case False
    have "\<exists>ys. vec b (pass b (kept @ [n]) ns m) = (kept @ [n]) @ ys \<and> set ys \<subseteq> set ns"
      by (rule Cons.IH) (simp add: Cons.prems)
    then obtain ys where "vec b (pass b (kept @ [n]) ns m) = kept @ n # ys" "set ys \<subseteq> set ns"
      by auto
    then have "vec b (pass b (kept @ [n]) ns m) = kept @ (n # ys) \<and> set (n # ys) \<subseteq> set (n # ns)"
      by auto
    then show ?thesis
      using False by (auto simp del: set_simps)
  next
    case q: True
    show ?thesis
    proof (cases "fst (attempt n m)")
      case True
      let ?m' = "set_vec b (kept @ ns) (snd (attempt n m))"
      have "\<exists>ys. vec b (pass b kept ns ?m') = kept @ ys \<and> set ys \<subseteq> set ns"
        by (rule Cons.IH) simp
      then show ?thesis
        using q True by auto
    next
      case False
      let ?m' = "snd (attempt n m)"
      have "\<exists>ys. vec b (pass b (kept @ [n]) ns ?m') = (kept @ [n]) @ ys \<and> set ys \<subseteq> set ns"
        by (rule Cons.IH) (simp add: Cons.prems)
      then obtain ys where "vec b (pass b (kept @ [n]) ns ?m') = kept @ n # ys" "set ys \<subseteq> set ns"
        by auto
      then have "vec b (pass b (kept @ [n]) ns ?m') = kept @ (n # ys) \<and> set (n # ys) \<subseteq> set (n # ns)"
        by auto
      then show ?thesis
        using q False by (auto simp del: set_simps)
    qed
  qed
qed

lemma attempts_nodes: "fst ` set (attempts b kept rest m) \<subseteq> set rest"
  by (induction rest arbitrary: kept m) auto

text \<open>Every entry is kept or moved to the destructor's channel by a successful attempt.\<close>

lemma pass_conserves:
  "vec b m = kept @ rest \<Longrightarrow>
   count_list (vec b (pass b kept rest m)) x + count_list (attempts b kept rest m) (x, True)
     = count_list (kept @ rest) x"
proof (induction rest arbitrary: kept m)
  case Nil
  then show ?case by simp
next
  case (Cons n ns)
  show ?case
  proof (cases "qualifies b m n")
    case False
    then show ?thesis
      using Cons.IH [of m "kept @ [n]"] Cons.prems by simp
  next
    case q: True
    show ?thesis
    proof (cases "fst (attempt n m)")
      case True
      let ?m' = "set_vec b (kept @ ns) (snd (attempt n m))"
      have "count_list (vec b (pass b kept ns ?m')) x + count_list (attempts b kept ns ?m') (x, True)
              = count_list (kept @ ns) x"
        by (rule Cons.IH) simp
      then show ?thesis
        using q True by auto
    next
      case False
      let ?m' = "snd (attempt n m)"
      have "count_list (vec b (pass b (kept @ [n]) ns ?m')) x
              + count_list (attempts b (kept @ [n]) ns ?m') (x, True)
              = count_list ((kept @ [n]) @ ns) x"
        by (rule Cons.IH) (simp add: Cons.prems)
      then show ?thesis
        using q False by auto
    qed
  qed
qed

lemma pass_queue:
  "queue (nodeDeconstructor (pass b kept rest m)) =
     queue (nodeDeconstructor m) @ map fst (filter snd (attempts b kept rest m))"
  by (induction rest arbitrary: kept m) (simp_all add: attempt_queue attempt_failed_destructor)

section \<open>Which nodes a pass attempts\<close>

lemma other_owners_le: "other_owners m x \<le> use_count m x"
  by (simp add: use_count_split)

lemma entries_le: "count_list (vec b m) x \<le> other_owners m x"
  by (cases b) (simp_all add: other_owners_def)

lemma not_attempted:
  assumes "vec b m = kept @ rest"
    and "1 < other_owners m x \<or> (b \<and> \<not> (isUnscheduled (heap m x) \<or> isFinished (heap m x)))"
  shows "x \<notin> fst ` set (attempts b kept rest m)"
  using assms
proof (induction rest arbitrary: kept m)
  case Nil
  show ?case by simp
next
  case (Cons n ns)
  have nq: "\<not> qualifies b m x"
    using Cons.prems(2) other_owners_le [of m x] by (auto simp: qualifies_def)
  show ?case
  proof (cases "qualifies b m n")
    case False
    then show ?thesis
      using Cons.IH [of m "kept @ [n]"] Cons.prems by simp
  next
    case q: True
    with nq have ne: "n \<noteq> x" by auto
    show ?thesis
    proof (cases "fst (attempt n m)")
      case True
      let ?m' = "set_vec b (kept @ ns) (snd (attempt n m))"
      have "x \<notin> fst ` set (attempts b kept ns ?m')"
        using Cons.prems(2) other_owners_retired [OF True Cons.prems(1), of x]
        by (intro Cons.IH) (simp_all add: isUnscheduled_def isFinished_def)
      then show ?thesis
        using q True ne by simp
    next
      case False
      let ?m' = "snd (attempt n m)"
      have "x \<notin> fst ` set (attempts b (kept @ [n]) ns ?m')"
        using Cons.prems other_owners_failed [OF False, of x]
        by (intro Cons.IH) simp_all
      then show ?thesis
        using q False ne by simp
    qed
  qed
qed

lemma qualifies_single_entry:
  assumes "qualifies b m x" and "vec b m = kept @ x # ns"
  shows "x \<notin> set ns" and "x \<notin> set kept"
proof -
  have "count_list (kept @ x # ns) x \<le> 1"
    using entries_le [of b m x] other_owners_le [of m x] assms by (simp add: qualifies_def)
  then have "count_list kept x = 0" and "count_list ns x = 0"
    by simp_all
  then show "x \<notin> set ns" and "x \<notin> set kept"
    by (simp_all add: count_list_0_iff)
qed

lemma qualifies_kept:
  assumes "qualifies b m x" and "x \<in> set (vec b m')"
    and "use_count m' x \<le> use_count m x"
    and "playbackState (heap m' x) = playbackState (heap m x)"
  shows "qualifies b m' x"
proof -
  have "count_list (vec b m') x \<noteq> 0"
    using assms(2) by (simp add: count_list_0_iff)
  then have "1 \<le> use_count m' x"
    using entries_le [of b m' x] other_owners_le [of m' x] by simp
  then show ?thesis
    using assms(1,3,4) by (auto simp: qualifies_def isUnscheduled_def isFinished_def)
qed

lemma use_count_failed_le:
  "\<not> fst (attempt n m) \<Longrightarrow> use_count (snd (attempt n m)) x \<le> use_count m x"
  using in_edges_attempt [of n m x] by (simp add: use_count_split other_owners_failed)

lemma use_count_retired_le:
  assumes "fst (attempt n m)" and "vec b m = kept @ n # ns"
  shows "use_count (set_vec b (kept @ ns) (snd (attempt n m))) x \<le> use_count m x"
  using in_edges_attempt [of n m x] other_owners_retired [OF assms, of x]
  by (simp add: use_count_split)

lemma attempted_once:
  assumes "vec b m = kept @ rest" and "x \<in> set rest" and "qualifies b m x"
  shows "count_list (map fst (attempts b kept rest m)) x = 1"
  using assms
proof (induction rest arbitrary: kept m)
  case Nil
  then show ?case by simp
next
  case (Cons n ns)
  show ?case
  proof (cases "n = x")
    case True
    have "x \<notin> set ns"
      using qualifies_single_entry(1) [OF Cons.prems(3)] Cons.prems(1) True by simp
    then have no: "x \<notin> fst ` set (attempts b k ns m')" for k m'
      using attempts_nodes [of b k ns m'] by auto
    then have "count_list (map fst (attempts b k ns m')) x = 0" for k m'
      by (simp add: count_list_0_iff)
    then show ?thesis
      using True Cons.prems(3) by simp
  next
    case ne: False
    then have xin: "x \<in> set ns"
      using Cons.prems(2) by simp
    show ?thesis
    proof (cases "qualifies b m n")
      case False
      then show ?thesis
        using Cons.IH [of m "kept @ [n]"] Cons.prems xin by simp
    next
      case q: True
      show ?thesis
      proof (cases "fst (attempt n m)")
        case True
        let ?m' = "set_vec b (kept @ ns) (snd (attempt n m))"
        have "qualifies b ?m' x"
        proof (rule qualifies_kept [OF Cons.prems(3)])
          show "x \<in> set (vec b ?m')" using xin by simp
          show "use_count ?m' x \<le> use_count m x"
            by (rule use_count_retired_le [OF True Cons.prems(1)])
          show "playbackState (heap ?m' x) = playbackState (heap m x)" by simp
        qed
        moreover have "vec b ?m' = kept @ ns" by simp
        ultimately have "count_list (map fst (attempts b kept ns ?m')) x = 1"
          using xin Cons.IH [of ?m' kept] by blast
        then show ?thesis
          using q True ne by simp
      next
        case False
        let ?m' = "snd (attempt n m)"
        have "qualifies b ?m' x"
        proof (rule qualifies_kept [OF Cons.prems(3)])
          show "x \<in> set (vec b ?m')" using xin Cons.prems(1) by simp
          show "use_count ?m' x \<le> use_count m x"
            by (rule use_count_failed_le [OF False])
          show "playbackState (heap ?m' x) = playbackState (heap m x)" by simp
        qed
        moreover have "vec b ?m' = (kept @ [n]) @ ns" using Cons.prems(1) by simp
        ultimately have "count_list (map fst (attempts b (kept @ [n]) ns ?m')) x = 1"
          using xin Cons.IH [of ?m' "kept @ [n]"] by blast
        then show ?thesis
          using q False ne by simp
      qed
    qed
  qed
qed

text \<open>Against a full channel every attempt fails and nothing is erased.\<close>

lemma pass_full:
  assumes "channel_full m" and "vec b m = kept @ rest"
  shows "vec b (pass b kept rest m) = kept @ rest
       \<and> nodeDeconstructor (pass b kept rest m) = nodeDeconstructor m
       \<and> snd ` set (attempts b kept rest m) \<subseteq> {False}"
  using assms
proof (induction rest arbitrary: kept m)
  case Nil
  then show ?case by simp
next
  case (Cons n ns)
  have nok: "\<not> fst (attempt n m)"
    using Cons.prems(1) by (simp add: attempt_fst channel_full_def)
  show ?case
  proof (cases "qualifies b m n")
    case False
    then show ?thesis
      using Cons.IH [of m "kept @ [n]"] Cons.prems by simp
  next
    case True
    let ?m' = "snd (attempt n m)"
    have "channel_full ?m'"
      using Cons.prems(1) nok by (simp add: channel_full_def attempt_failed_destructor)
    then have "vec b (pass b (kept @ [n]) ns ?m') = (kept @ [n]) @ ns
       \<and> nodeDeconstructor (pass b (kept @ [n]) ns ?m') = nodeDeconstructor ?m'
       \<and> snd ` set (attempts b (kept @ [n]) ns ?m') \<subseteq> {False}"
      by (rule Cons.IH) (simp add: Cons.prems(2))
    then show ?thesis
      using True nok by (simp add: attempt_failed_destructor)
  qed
qed

section \<open>The sweep as two passes\<close>

lemma after_sources_frame [simp]:
  "processingNodes (after_sources m) = processingNodes m"
  "audioParams (after_sources m) = audioParams m"
  "receiver (after_sources m) = receiver m"
  "capacity (nodeDeconstructor (after_sources m)) = capacity (nodeDeconstructor m)"
  "holders (heap (after_sources m) x) = holders (heap m x)"
  "playbackState (heap (after_sources m) x) = playbackState (heap m x)"
  "pending (after_sources m) x = pending m x"
  using pass_frame(6) [of True "[]" "sourceNodes m" m]
  by (simp_all add: after_sources_def)

lemma after_sources_other_owners [simp]: "other_owners (after_sources m) x = other_owners m x"
  by (simp add: after_sources_def pass_other_owners)

lemma after_sources_use_count_le: "use_count (after_sources m) x \<le> use_count m x"
  by (simp add: after_sources_def pass_use_count_le)

lemma prepare_pass:
  "prepareNodesForDestruction m = pass False [] (processingNodes m) (after_sources m)"
  by (simp add: prepare_eq)

lemma prepare_frame [simp]:
  "audioParams (prepareNodesForDestruction m) = audioParams m"
  "receiver (prepareNodesForDestruction m) = receiver m"
  "capacity (nodeDeconstructor (prepareNodesForDestruction m)) = capacity (nodeDeconstructor m)"
  "holders (heap (prepareNodesForDestruction m) x) = holders (heap m x)"
  "playbackState (heap (prepareNodesForDestruction m) x) = playbackState (heap m x)"
  "pending (prepareNodesForDestruction m) x = pending m x"
  by (simp_all add: prepare_pass)

lemma prepare_sourceNodes:
  "sourceNodes (prepareNodesForDestruction m) = sourceNodes (after_sources m)"
  using pass_frame(6) [of False "[]" "processingNodes m" "after_sources m"]
  by (simp add: prepare_pass)

lemma prepare_other_owners [simp]:
  "other_owners (prepareNodesForDestruction m) x = other_owners m x"
  by (simp add: prepare_pass pass_other_owners)

lemma prepare_use_count_le: "use_count (prepareNodesForDestruction m) x \<le> use_count m x"
proof -
  have "use_count (pass False [] (processingNodes m) (after_sources m)) x
          \<le> use_count (after_sources m) x"
    by (rule pass_use_count_le) simp
  then show ?thesis
    using after_sources_use_count_le [of m x] by (simp only: prepare_pass)
qed

lemma prepare_calls:
  "calls (prepareNodesForDestruction m) = calls m @ pairs_log (sweep_attempts m)"
  by (simp add: prepare_pass pass_calls sweep_attempts_def after_sources_def)

lemma new_calls_prepare:
  "new_calls m (prepareNodesForDestruction m) = pairs_log (sweep_attempts m)"
  by (simp add: new_calls_def prepare_calls)

lemma Cleanup_in_pairs_log: "Cleanup x \<in> set (pairs_log zs) \<longleftrightarrow> x \<in> fst ` set zs"
  by (induction zs) (auto simp: image_iff)

lemma TryAdd_in_pairs_log:
  "TryAddNodeForDeconstruction x ok \<in> set (pairs_log zs) \<longleftrightarrow> (x, ok) \<in> set zs"
  by (induction zs) auto

lemma count_pairs_log_Cleanup:
  "count_list (pairs_log zs) (Cleanup n) = count_list (map fst zs) n"
  by (induction zs) auto

lemma count_pairs_log_TryAdd:
  "count_list (pairs_log zs) (TryAddNodeForDeconstruction n ok) = count_list zs (n, ok)"
proof (induction zs)
  case Nil
  show ?case by simp
next
  case (Cons z zs)
  obtain a b where z: "z = (a, b)"
    by (cases z)
  show ?case
    using Cons by (simp add: z)
qed

lemma prepare_source_entries:
  "count_list (sourceNodes (prepareNodesForDestruction m)) x
     + count_list (attempts True [] (sourceNodes m) m) (x, True)
   = count_list (sourceNodes m) x"
  using pass_conserves [of True m "[]" "sourceNodes m" x]
  by (simp add: prepare_sourceNodes after_sources_def)

lemma prepare_processing_entries:
  "count_list (processingNodes (prepareNodesForDestruction m)) x
     + count_list (attempts False [] (processingNodes m) (after_sources m)) (x, True)
   = count_list (processingNodes m) x"
  using pass_conserves [of False "after_sources m" "[]" "processingNodes m" x]
  by (simp add: prepare_pass)

lemma not_in_attempts_count: "x \<notin> fst ` set zs \<Longrightarrow> count_list zs (x, ok) = 0"
  by (force simp: count_list_0_iff)

text \<open>A node the sweep does not attempt keeps its entries and sees no call.\<close>

lemma sweep_untouched:
  assumes "x \<notin> fst ` set (sweep_attempts m)"
  shows "Cleanup x \<notin> set (new_calls m (prepareNodesForDestruction m))"
    and "TryAddNodeForDeconstruction x ok \<notin> set (new_calls m (prepareNodesForDestruction m))"
    and "count_list (sourceNodes (prepareNodesForDestruction m)) x = count_list (sourceNodes m) x"
    and "count_list (processingNodes (prepareNodesForDestruction m)) x
           = count_list (processingNodes m) x"
proof -
  have a: "x \<notin> fst ` set (attempts True [] (sourceNodes m) m)"
    and b: "x \<notin> fst ` set (attempts False [] (processingNodes m) (after_sources m))"
    using assms by (auto simp: sweep_attempts_def)
  show "Cleanup x \<notin> set (new_calls m (prepareNodesForDestruction m))"
    using assms by (simp add: new_calls_prepare Cleanup_in_pairs_log)
  show "TryAddNodeForDeconstruction x ok \<notin> set (new_calls m (prepareNodesForDestruction m))"
    using assms by (force simp: new_calls_prepare TryAdd_in_pairs_log)
  show "count_list (sourceNodes (prepareNodesForDestruction m)) x = count_list (sourceNodes m) x"
    using prepare_source_entries [of m x] not_in_attempts_count [OF a, of True] by simp
  show "count_list (processingNodes (prepareNodesForDestruction m)) x
           = count_list (processingNodes m) x"
    using prepare_processing_entries [of m x] not_in_attempts_count [OF b, of True] by simp
qed

lemma sweep_not_attempted_owners:
  assumes "1 < other_owners m x"
  shows "x \<notin> fst ` set (sweep_attempts m)"
proof -
  have "x \<notin> fst ` set (attempts True [] (sourceNodes m) m)"
    using assms by (intro not_attempted) simp_all
  moreover have "x \<notin> fst ` set (attempts False [] (processingNodes m) (after_sources m))"
    using assms by (intro not_attempted) simp_all
  ultimately show ?thesis
    by (simp add: sweep_attempts_def image_Un)
qed

lemma sweep_not_attempted_playing:
  assumes "x \<in> set (sourceNodes m)"
    and "\<not> (isUnscheduled (heap m x) \<or> isFinished (heap m x))"
  shows "x \<notin> fst ` set (sweep_attempts m)"
proof -
  have a: "x \<notin> fst ` set (attempts True [] (sourceNodes m) m)"
    using assms(2) by (intro not_attempted) simp_all
  have b: "x \<notin> fst ` set (attempts False [] (processingNodes m) (after_sources m))"
  proof (cases "x \<in> set (processingNodes m)")
    case True
    then have "count_list (processingNodes m) x \<noteq> 0" and "count_list (sourceNodes m) x \<noteq> 0"
      using assms(1) by (simp_all add: count_list_0_iff)
    then have "1 < other_owners m x"
      by (simp add: other_owners_def)
    then have "1 < other_owners (after_sources m) x"
      by (simp only: after_sources_other_owners)
    then show ?thesis
      by (intro not_attempted) simp_all
  next
    case False
    then show ?thesis
      using attempts_nodes [of False "[]" "processingNodes m" "after_sources m"] by auto
  qed
  from a b show ?thesis
    by (simp add: sweep_attempts_def image_Un)
qed

section \<open>Selected nodes\<close>

lemma count_list_pos: "x \<in> set xs \<Longrightarrow> 0 < count_list xs x"
  by (induction xs) auto

lemma tracked_count_ge: "x \<in> set (vec b m) \<Longrightarrow> 1 \<le> use_count m x"
proof -
  assume "x \<in> set (vec b m)"
  then have "0 < count_list (vec b m) x"
    by (simp add: count_list_pos)
  then show ?thesis
    using entries_le [of b m x] other_owners_le [of m x] by simp
qed

lemma both_vectors_count:
  "x \<in> set (sourceNodes m) \<Longrightarrow> x \<in> set (processingNodes m) \<Longrightarrow> 1 < use_count m x"
proof -
  assume "x \<in> set (sourceNodes m)" and "x \<in> set (processingNodes m)"
  then have "0 < count_list (sourceNodes m) x" and "0 < count_list (processingNodes m) x"
    by (simp_all add: count_list_pos)
  then have "1 < other_owners m x"
    by (simp add: other_owners_def)
  then show ?thesis
    using other_owners_le [of m x] by simp
qed

lemma qualifies_count_entries:
  assumes "qualifies b m x" and "x \<in> set (vec b m)"
  shows "count_list (vec b m) x = 1"
proof -
  have "0 < count_list (vec b m) x"
    using assms(2) by (simp add: count_list_pos)
  moreover have "count_list (vec b m) x \<le> 1"
    using entries_le [of b m x] other_owners_le [of m x] qualifies_count [OF assms(1)] by simp
  ultimately show ?thesis
    by simp
qed

lemma qualifies_not_queued:
  assumes "qualifies b m x" and "x \<in> set (vec b m)"
  shows "x \<notin> set (queue (nodeDeconstructor m))"
proof
  assume "x \<in> set (queue (nodeDeconstructor m))"
  then have "0 < count_list (queue (nodeDeconstructor m)) x"
    by (simp add: count_list_pos)
  moreover have "0 < count_list (vec b m) x"
    using assms(2) by (simp add: count_list_pos)
  ultimately have "1 < other_owners m x"
    by (cases b) (simp_all add: other_owners_def)
  then show False
    using other_owners_le [of m x] qualifies_count [OF assms(1)] by simp
qed

lemma selected_cases:
  assumes "selected m n"
  obtains (source) "n \<in> set (sourceNodes m)" "qualifies True m n" "n \<notin> set (processingNodes m)"
  | (processing) "n \<in> set (processingNodes m)" "qualifies False m n" "n \<notin> set (sourceNodes m)"
proof -
  have "\<not> (n \<in> set (sourceNodes m) \<and> n \<in> set (processingNodes m))"
    using assms both_vectors_count [of n m] by (auto simp: selected_def dest: qualifies_count)
  then show thesis
    using assms source processing by (auto simp: selected_def)
qed

lemma qualifies_after_sources:
  assumes "qualifies False m n" and "n \<in> set (processingNodes m)"
  shows "qualifies False (after_sources m) n"
proof (rule qualifies_kept [OF assms(1)])
  show "n \<in> set (vec False (after_sources m))"
    using assms(2) by simp
  show "use_count (after_sources m) n \<le> use_count m n"
    by (rule after_sources_use_count_le)
  show "playbackState (heap (after_sources m) n) = playbackState (heap m n)"
    by simp
qed

lemma selected_once:
  assumes "selected m n"
  shows "count_list (map fst (sweep_attempts m)) n = 1"
  using assms
proof (cases rule: selected_cases)
  case source
  have "count_list (map fst (attempts True [] (sourceNodes m) m)) n = 1"
    by (rule attempted_once) (simp_all add: source)
  moreover have "n \<notin> fst ` set (attempts False [] (processingNodes m) (after_sources m))"
    using attempts_nodes [of False "[]" "processingNodes m" "after_sources m"] source(3) by auto
  then have "count_list (map fst (attempts False [] (processingNodes m) (after_sources m))) n = 0"
    by (simp add: count_list_0_iff)
  ultimately show ?thesis
    by (simp add: sweep_attempts_def)
next
  case processing
  have "n \<notin> fst ` set (attempts True [] (sourceNodes m) m)"
    using attempts_nodes [of True "[]" "sourceNodes m" m] processing(3) by auto
  then have "count_list (map fst (attempts True [] (sourceNodes m) m)) n = 0"
    by (simp add: count_list_0_iff)
  moreover have "count_list (map fst (attempts False [] (processingNodes m) (after_sources m))) n = 1"
    by (rule attempted_once) (simp_all add: processing qualifies_after_sources)
  ultimately show ?thesis
    by (simp add: sweep_attempts_def)
qed

lemma count_map_fst_pairs:
  "count_list (map fst zs) n = count_list zs (n, True) + count_list zs (n, False)"
proof (induction zs)
  case Nil
  show ?case by simp
next
  case (Cons z zs)
  obtain a b where z: "z = (a, b)"
    by (cases z)
  show ?case
    using Cons by (cases b) (simp_all add: z)
qed

lemma selected_outcome:
  assumes "selected m n"
  shows "count_list (sweep_attempts m) (n, True) + count_list (sweep_attempts m) (n, False) = 1"
  using selected_once [OF assms] by (simp add: count_map_fst_pairs)

section \<open>The destructor's channel during a sweep\<close>

lemma prepare_queue:
  "queue (nodeDeconstructor (prepareNodesForDestruction m)) =
     queue (nodeDeconstructor m) @ map fst (filter snd (sweep_attempts m))"
  by (simp add: prepare_pass pass_queue sweep_attempts_def after_sources_def)

lemma pass_channel_full: "channel_full m \<Longrightarrow> channel_full (pass b kept rest m)"
  by (simp add: channel_full_def pass_queue)

lemma failed_full:
  "(x, False) \<in> set (attempts b kept rest m) \<Longrightarrow> channel_full (pass b kept rest m)"
proof (induction rest arbitrary: kept m)
  case Nil
  then show ?case by simp
next
  case (Cons n ns)
  show ?case
  proof (cases "qualifies b m n")
    case False
    then show ?thesis
      using Cons.prems Cons.IH [of "kept @ [n]" m] by simp
  next
    case q: True
    show ?thesis
    proof (cases "fst (attempt n m)")
      case True
      then show ?thesis
        using q Cons.prems Cons.IH [of kept "set_vec b (kept @ ns) (snd (attempt n m))"] by simp
    next
      case False
      then have "channel_full (snd (attempt n m))"
        by (simp add: attempt_failed_destructor channel_full_def attempt_fst)
      then have "channel_full (pass b (kept @ [n]) ns (snd (attempt n m)))"
        by (rule pass_channel_full)
      then show ?thesis
        using q False by simp
    qed
  qed
qed

lemma sweep_failed_full:
  assumes "(x, False) \<in> set (sweep_attempts m)"
  shows "channel_full (prepareNodesForDestruction m)"
proof -
  from assms consider "(x, False) \<in> set (attempts True [] (sourceNodes m) m)"
    | "(x, False) \<in> set (attempts False [] (processingNodes m) (after_sources m))"
    by (auto simp: sweep_attempts_def)
  then show ?thesis
  proof cases
    case 1
    then have "channel_full (after_sources m)"
      unfolding after_sources_def by (rule failed_full)
    then show ?thesis
      unfolding prepare_pass by (rule pass_channel_full)
  next
    case 2
    then show ?thesis
      unfolding prepare_pass by (rule failed_full)
  qed
qed

section \<open>A selected node after the sweep\<close>

lemma selected_failed:
  assumes "selected m n" and "(n, True) \<notin> set (sweep_attempts m)"
  shows "selected (prepareNodesForDestruction m) n"
    and "count_list (sourceNodes (prepareNodesForDestruction m)) n = count_list (sourceNodes m) n"
    and "count_list (processingNodes (prepareNodesForDestruction m)) n
           = count_list (processingNodes m) n"
proof -
  have a: "count_list (attempts True [] (sourceNodes m) m) (n, True) = 0"
    and b: "count_list (attempts False [] (processingNodes m) (after_sources m)) (n, True) = 0"
    using assms(2) by (simp_all add: sweep_attempts_def count_list_0_iff)
  show s: "count_list (sourceNodes (prepareNodesForDestruction m)) n = count_list (sourceNodes m) n"
    using prepare_source_entries [of m n] a by simp
  show p: "count_list (processingNodes (prepareNodesForDestruction m)) n
           = count_list (processingNodes m) n"
    using prepare_processing_entries [of m n] b by simp
  from assms(1) show "selected (prepareNodesForDestruction m) n"
  proof (cases rule: selected_cases)
    case source
    have "n \<in> set (sourceNodes (prepareNodesForDestruction m))"
      using s source(1) count_list_0_iff [of "sourceNodes (prepareNodesForDestruction m)" n]
        count_list_0_iff [of "sourceNodes m" n] by simp
    moreover have "qualifies True (prepareNodesForDestruction m) n"
    proof (rule qualifies_kept [OF source(2)])
      show "n \<in> set (vec True (prepareNodesForDestruction m))"
        using calculation by simp
      show "use_count (prepareNodesForDestruction m) n \<le> use_count m n"
        by (rule prepare_use_count_le)
      show "playbackState (heap (prepareNodesForDestruction m) n) = playbackState (heap m n)"
        by simp
    qed
    ultimately show ?thesis
      by (simp add: selected_def)
  next
    case processing
    have "n \<in> set (processingNodes (prepareNodesForDestruction m))"
      using p processing(1) count_list_0_iff [of "processingNodes (prepareNodesForDestruction m)" n]
        count_list_0_iff [of "processingNodes m" n] by simp
    moreover have "qualifies False (prepareNodesForDestruction m) n"
    proof (rule qualifies_kept [OF processing(2)])
      show "n \<in> set (vec False (prepareNodesForDestruction m))"
        using calculation by simp
      show "use_count (prepareNodesForDestruction m) n \<le> use_count m n"
        by (rule prepare_use_count_le)
      show "playbackState (heap (prepareNodesForDestruction m) n) = playbackState (heap m n)"
        by simp
    qed
    ultimately show ?thesis
      by (simp add: selected_def)
  qed
qed

lemma selected_retired:
  assumes "selected m n" and "(n, True) \<in> set (sweep_attempts m)"
  shows "n \<notin> set (sourceNodes (prepareNodesForDestruction m))"
    and "n \<notin> set (processingNodes (prepareNodesForDestruction m))"
    and "n \<in> set (queue (nodeDeconstructor (prepareNodesForDestruction m)))"
proof -
  show "n \<in> set (queue (nodeDeconstructor (prepareNodesForDestruction m)))"
    using assms(2) by (force simp: prepare_queue)
  have both: "count_list (sourceNodes (prepareNodesForDestruction m)) n = 0
            \<and> count_list (processingNodes (prepareNodesForDestruction m)) n = 0"
    using assms(1)
  proof (cases rule: selected_cases)
    case source
    have "(n, True) \<notin> set (attempts False [] (processingNodes m) (after_sources m))"
      using attempts_nodes [of False "[]" "processingNodes m" "after_sources m"] source(3)
      by force
    then have "(n, True) \<in> set (attempts True [] (sourceNodes m) m)"
      using assms(2) by (simp add: sweep_attempts_def)
    then have "0 < count_list (attempts True [] (sourceNodes m) m) (n, True)"
      by (simp add: count_list_pos)
    moreover have "count_list (sourceNodes m) n = 1"
      using qualifies_count_entries [OF source(2)] source(1) by simp
    moreover have "count_list (processingNodes m) n = 0"
      using source(3) by (simp add: count_list_0_iff)
    ultimately show ?thesis
      using prepare_source_entries [of m n] prepare_processing_entries [of m n] by simp
  next
    case processing
    have "(n, True) \<notin> set (attempts True [] (sourceNodes m) m)"
      using attempts_nodes [of True "[]" "sourceNodes m" m] processing(3)
      by force
    then have "(n, True) \<in> set (attempts False [] (processingNodes m) (after_sources m))"
      using assms(2) by (simp add: sweep_attempts_def)
    then have "0 < count_list (attempts False [] (processingNodes m) (after_sources m)) (n, True)"
      by (simp add: count_list_pos)
    moreover have "count_list (processingNodes m) n = 1"
      using qualifies_count_entries [OF processing(2)] processing(1) by simp
    moreover have "count_list (sourceNodes m) n = 0"
      using processing(3) by (simp add: count_list_0_iff)
    ultimately show ?thesis
      using prepare_source_entries [of m n] prepare_processing_entries [of m n] by simp
  qed
  show "n \<notin> set (sourceNodes (prepareNodesForDestruction m))"
    using both by (simp add: count_list_0_iff)
  show "n \<notin> set (processingNodes (prepareNodesForDestruction m))"
    using both by (simp add: count_list_0_iff)
qed

section \<open>The destructor's thread between sweeps\<close>

lemma process_frame [simp]:
  "sourceNodes (process j m) = sourceNodes m"
  "processingNodes (process j m) = processingNodes m"
  "audioParams (process j m) = audioParams m"
  "receiver (process j m) = receiver m"
  "heap (process j m) = heap m"
  "edges (process j m) = edges m"
  "calls (process j m) = calls m"
  "capacity (nodeDeconstructor (process j m)) = capacity (nodeDeconstructor m)"
  "queue (nodeDeconstructor (process j m)) = drop j (queue (nodeDeconstructor m))"
  by (simp_all add: process_def)

lemma count_list_drop_le: "count_list (drop j xs) x \<le> count_list xs x"
proof -
  have "count_list (take j xs @ drop j xs) x = count_list (take j xs) x + count_list (drop j xs) x"
    by (rule count_list_append)
  then show ?thesis
    by simp
qed

lemma process_use_count_le: "use_count (process j m) x \<le> use_count m x"
  using count_list_drop_le [of j "queue (nodeDeconstructor m)" x]
  by (simp add: use_count_def)

lemma selected_process:
  assumes "selected m n"
  shows "selected (process j m) n"
  using assms
proof (cases rule: selected_cases)
  case source
  have "qualifies True (process j m) n"
    by (rule qualifies_kept [OF source(2)]) (simp_all add: source process_use_count_le)
  then show ?thesis
    using source(1) by (simp add: selected_def)
next
  case processing
  have "qualifies False (process j m) n"
    by (rule qualifies_kept [OF processing(2)]) (simp_all add: processing process_use_count_le)
  then show ?thesis
    using processing(1) by (simp add: selected_def)
qed

section \<open>The reference-count guard\<close>

declare pass.simps(2) [simp del] attempts.simps(2) [simp del]

lemma pass_observed:
  assumes v: "vec b m = kept @ n # ns" and c: "1 < use_count m n"
  shows "pass b kept (n # ns) m = pass b (kept @ [n]) ns m"
    and "attempts b kept (n # ns) m = attempts b (kept @ [n]) ns m"
    and "n \<notin> fst ` set (attempts b kept (n # ns) m)"
proof -
  have nq: "\<not> qualifies b m n"
    using c by (auto simp: qualifies_def)
  show "pass b kept (n # ns) m = pass b (kept @ [n]) ns m"
    using nq by (simp add: pass.simps)
  show a: "attempts b kept (n # ns) m = attempts b (kept @ [n]) ns m"
    using nq by (simp add: attempts.simps)
  have "n \<notin> fst ` set (attempts b (kept @ [n]) ns m)"
  proof (cases "n \<in> set ns")
    case True
    then have "1 < count_list (vec b m) n"
      using count_list_pos [of n ns] by (simp add: v)
    then have "1 < other_owners m n"
      using entries_le [of b m n] by simp
    then show ?thesis
      by (intro not_attempted) (simp_all add: v)
  next
    case False
    then show ?thesis
      using attempts_nodes [of b "kept @ [n]" ns m] by auto
  qed
  then show "n \<notin> fst ` set (attempts b kept (n # ns) m)"
    unfolding a .
qed

lemma pass_observed_entry:
  assumes v: "vec b m = kept @ n # ns" and c: "1 < use_count m n"
  shows "\<exists>ys. vec b (pass b kept (n # ns) m) = kept @ n # ys"
proof -
  have "\<exists>ys. vec b (pass b (kept @ [n]) ns m) = (kept @ [n]) @ ys \<and> set ys \<subseteq> set ns"
    by (rule pass_vec) (simp add: v)
  then show ?thesis
    unfolding pass_observed(1) [OF v c] by auto
qed

lemma pass_kept_count:
  assumes "vec b m = kept @ rest" and "n \<notin> fst ` set (attempts b kept rest m)"
  shows "count_list (vec b (pass b kept rest m)) n = count_list (vec b m) n"
  using pass_conserves [OF assms(1), of n] not_in_attempts_count [OF assms(2), of True]
  by (simp add: assms(1))

text \<open>A node with an entry in one vector is never attempted by the loop over the other.\<close>

lemma other_pass_untouched:
  assumes "n \<in> set (vec b m)"
  shows "n \<notin> fst ` set (attempts (\<not> b) [] (vec (\<not> b) m) m)"
proof (cases "n \<in> set (vec (\<not> b) m)")
  case True
  then have "0 < count_list (vec (\<not> b) m) n" and "0 < count_list (vec b m) n"
    using assms by (simp_all add: count_list_pos)
  then have "1 < other_owners m n"
    by (cases b) (simp_all add: other_owners_def)
  then show ?thesis
    by (intro not_attempted) simp_all
next
  case False
  then show ?thesis
    using attempts_nodes [of "\<not> b" "[]" "vec (\<not> b) m" m] by auto
qed

lemma untouchedI:
  assumes "new_calls m m' = pairs_log zs" and "n \<notin> fst ` set zs"
    and "count_list (sourceNodes m') n = count_list (sourceNodes m) n"
    and "count_list (processingNodes m') n = count_list (processingNodes m) n"
  shows "untouched n m m'"
  using assms by (force simp: untouched_def Cleanup_in_pairs_log TryAdd_in_pairs_log)

lemma source_observed:
  assumes i: "i < length (sourceNodes m)" and c: "1 < use_count m (sourceNodes m ! i)"
  shows "sweepSourceNodes i m = sweepSourceNodes (Suc i) m"
    and "untouched (sourceNodes m ! i) m (sweepProcessingNodes 0 (sweepSourceNodes i m))"
    and "i < length (sourceNodes (sweepProcessingNodes 0 (sweepSourceNodes i m)))"
    and "sourceNodes (sweepProcessingNodes 0 (sweepSourceNodes i m)) ! i = sourceNodes m ! i"
proof -
  let ?n = "sourceNodes m ! i"
  let ?kept = "take i (sourceNodes m)"
  let ?ns = "drop (Suc i) (sourceNodes m)"
  let ?m1 = "pass True ?kept (?n # ?ns) m"
  let ?m2 = "pass False [] (processingNodes ?m1) ?m1"
  have v: "vec True m = ?kept @ ?n # ?ns"
    using i by (simp add: id_take_nth_drop [symmetric])
  have len: "length ?kept = i"
    using i by simp
  have nq: "\<not> qualifies True m ?n"
    using c by (auto simp: qualifies_def)
  show "sweepSourceNodes i m = sweepSourceNodes (Suc i) m"
    using i nq by (rule sweepSourceNodes_skip)
  have m1: "sweepSourceNodes i m = ?m1"
    using sweepSourceNodes_pass [of m ?kept "?n # ?ns"] v len by simp
  have m2: "sweepProcessingNodes 0 ?m1 = ?m2"
    using sweepProcessingNodes_pass [of ?m1 "[]" "processingNodes ?m1"] by simp
  have a1: "?n \<notin> fst ` set (attempts True ?kept (?n # ?ns) m)"
    by (rule pass_observed(3) [OF v c])
  obtain ys where ys: "vec True ?m1 = ?kept @ ?n # ys"
    using pass_observed_entry [OF v c] by blast
  then have in1: "?n \<in> set (vec True ?m1)"
    by simp
  have a2: "?n \<notin> fst ` set (attempts False [] (processingNodes ?m1) ?m1)"
    using other_pass_untouched [OF in1] by simp
  have s2: "sourceNodes ?m2 = sourceNodes ?m1"
    using pass_frame(6) [of False "[]" "processingNodes ?m1" ?m1] by simp
  have p1: "processingNodes ?m1 = processingNodes m"
    using pass_frame(6) [of True ?kept "?n # ?ns" m] by simp
  have calls: "new_calls m ?m2
      = pairs_log (attempts True ?kept (?n # ?ns) m @ attempts False [] (processingNodes ?m1) ?m1)"
    by (simp add: new_calls_def pass_calls)
  have cs: "count_list (sourceNodes ?m2) ?n = count_list (sourceNodes m) ?n"
    using pass_kept_count [OF v a1] by (simp add: s2)
  have cp: "count_list (processingNodes ?m2) ?n = count_list (processingNodes m) ?n"
    using pass_kept_count [of False ?m1 "[]" "processingNodes ?m1" ?n] a2 by (simp add: p1)
  have "untouched ?n m ?m2"
    using calls _ cs cp by (rule untouchedI) (use a1 a2 in auto)
  then show "untouched ?n m (sweepProcessingNodes 0 (sweepSourceNodes i m))"
    by (simp only: m1 m2)
  have "i < length (sourceNodes ?m2) \<and> sourceNodes ?m2 ! i = ?n"
    using ys len by (simp add: s2 nth_append)
  then show "i < length (sourceNodes (sweepProcessingNodes 0 (sweepSourceNodes i m)))"
    and "sourceNodes (sweepProcessingNodes 0 (sweepSourceNodes i m)) ! i = sourceNodes m ! i"
    by (simp_all only: m1 m2)
qed

lemma processing_observed:
  assumes i: "i < length (processingNodes m)" and c: "1 < use_count m (processingNodes m ! i)"
  shows "sweepProcessingNodes i m = sweepProcessingNodes (Suc i) m"
    and "untouched (processingNodes m ! i) m (sweepProcessingNodes i m)"
    and "i < length (processingNodes (sweepProcessingNodes i m))"
    and "processingNodes (sweepProcessingNodes i m) ! i = processingNodes m ! i"
proof -
  let ?n = "processingNodes m ! i"
  let ?kept = "take i (processingNodes m)"
  let ?ns = "drop (Suc i) (processingNodes m)"
  let ?m1 = "pass False ?kept (?n # ?ns) m"
  have v: "vec False m = ?kept @ ?n # ?ns"
    using i by (simp add: id_take_nth_drop [symmetric])
  have len: "length ?kept = i"
    using i by simp
  have nq: "\<not> qualifies False m ?n"
    using c by (auto simp: qualifies_def)
  show "sweepProcessingNodes i m = sweepProcessingNodes (Suc i) m"
    using i nq by (rule sweepProcessingNodes_skip)
  have m1: "sweepProcessingNodes i m = ?m1"
    using sweepProcessingNodes_pass [of m ?kept "?n # ?ns"] v len by simp
  have a1: "?n \<notin> fst ` set (attempts False ?kept (?n # ?ns) m)"
    by (rule pass_observed(3) [OF v c])
  obtain ys where ys: "vec False ?m1 = ?kept @ ?n # ys"
    using pass_observed_entry [OF v c] by blast
  have s1: "sourceNodes ?m1 = sourceNodes m"
    using pass_frame(6) [of False ?kept "?n # ?ns" m] by simp
  have calls: "new_calls m ?m1 = pairs_log (attempts False ?kept (?n # ?ns) m)"
    by (simp add: new_calls_def pass_calls)
  have cp: "count_list (processingNodes ?m1) ?n = count_list (processingNodes m) ?n"
    using pass_kept_count [OF v a1] by simp
  have cs: "count_list (sourceNodes ?m1) ?n = count_list (sourceNodes m) ?n"
    by (simp only: s1)
  have "untouched ?n m ?m1"
    using calls a1 cs cp by (rule untouchedI)
  then show "untouched ?n m (sweepProcessingNodes i m)"
    by (simp only: m1)
  have "i < length (processingNodes ?m1) \<and> processingNodes ?m1 ! i = ?n"
    using ys len by (simp add: nth_append)
  then show "i < length (processingNodes (sweepProcessingNodes i m))"
    and "processingNodes (sweepProcessingNodes i m) ! i = processingNodes m ! i"
    by (simp_all only: m1)
qed

lemma sweep_untouchedI:
  "n \<notin> fst ` set (sweep_attempts m) \<Longrightarrow> untouched n m (prepareNodesForDestruction m)"
  using sweep_untouched [of n m] by (rule_tac untouchedI [OF new_calls_prepare]) auto

lemma owners_guard:
  assumes "1 < other_owners m n"
  shows "untouched n m (prepareNodesForDestruction m)"
    and "1 < use_count (prepareNodesForDestruction m) n"
proof -
  show "untouched n m (prepareNodesForDestruction m)"
    by (rule sweep_untouchedI [OF sweep_not_attempted_owners [OF assms]])
  have "1 < other_owners (prepareNodesForDestruction m) n"
    using assms by simp
  then show "1 < use_count (prepareNodesForDestruction m) n"
    using other_owners_le [of "prepareNodesForDestruction m" n] by simp
qed

text \<open>
  Claim C1 (reference-count guard), at the loop's observation. When the loop over the
  source nodes reads a count greater than 1 for the entry at its iterator, it moves on,
  and in the rest of the sweep (the remaining source nodes and the whole loop over the
  processing nodes) that node gets no cleanup call and no retire attempt, and the entry is
  still at its place when the sweep returns; the same holds for the loop over the
  processing nodes. The count is the number of owners at that moment, so it may have fallen
  since the sweep began. Over a whole sweep: a node with more than one owner that the
  sweep cannot release (handles held outside the manager, entries of the vectors, entries
  of the destructor's channel) is untouched, and its count is still greater than 1
  afterwards.
\<close>

theorem refcount_guard:
  "(i < length (sourceNodes m) \<and> 1 < use_count m (sourceNodes m ! i) \<longrightarrow>
      sweepSourceNodes i m = sweepSourceNodes (Suc i) m \<and>
      untouched (sourceNodes m ! i) m (sweepProcessingNodes 0 (sweepSourceNodes i m)) \<and>
      i < length (sourceNodes (sweepProcessingNodes 0 (sweepSourceNodes i m))) \<and>
      sourceNodes (sweepProcessingNodes 0 (sweepSourceNodes i m)) ! i = sourceNodes m ! i) \<and>
   (i < length (processingNodes m) \<and> 1 < use_count m (processingNodes m ! i) \<longrightarrow>
      sweepProcessingNodes i m = sweepProcessingNodes (Suc i) m \<and>
      untouched (processingNodes m ! i) m (sweepProcessingNodes i m) \<and>
      i < length (processingNodes (sweepProcessingNodes i m)) \<and>
      processingNodes (sweepProcessingNodes i m) ! i = processingNodes m ! i) \<and>
   (1 < other_owners m n \<longrightarrow>
      untouched n m (prepareNodesForDestruction m) \<and>
      1 < use_count (prepareNodesForDestruction m) n)"
  using source_observed [of i m] processing_observed [of i m] owners_guard [of m n]
  by blast

lemma scenario_C_simps:
  "sourceNodes scenario_C = [Node 0]"
  "processingNodes scenario_C = [Node 1]"
  "use_count scenario_C (Node 0) = 2"
  "use_count scenario_C (Node 1) = 2"
  "other_owners scenario_C (Node 0) = 2"
  "playbackState (heap scenario_C (Node 0)) = FINISHED"
  "calls scenario_C = []"
  by (simp_all add: scenario_C_def init_def idle_def use_count_def other_owners_def)

theorem refcount_guard_witness:
  "0 < length (sourceNodes scenario_C) \<and> 1 < use_count scenario_C (sourceNodes scenario_C ! 0) \<and>
   0 < length (processingNodes scenario_C) \<and>
   1 < use_count scenario_C (processingNodes scenario_C ! 0) \<and>
   1 < other_owners scenario_C (Node 0) \<and>
   isFinished (heap scenario_C (Node 0)) \<and>
   untouched (Node 0) scenario_C (prepareNodesForDestruction scenario_C) \<and>
   untouched (Node 1) scenario_C (sweepProcessingNodes 0 scenario_C) \<and>
   sourceNodes (prepareNodesForDestruction scenario_C) ! 0 = Node 0"
proof -
  have h1: "0 < length (sourceNodes scenario_C) \<and>
            1 < use_count scenario_C (sourceNodes scenario_C ! 0)"
    by (simp add: scenario_C_simps)
  have h2: "0 < length (processingNodes scenario_C) \<and>
            1 < use_count scenario_C (processingNodes scenario_C ! 0)"
    by (simp add: scenario_C_simps del: One_nat_def)
  have h3: "1 < other_owners scenario_C (Node 0)"
    by (simp add: scenario_C_simps)
  have f: "isFinished (heap scenario_C (Node 0))"
    by (simp add: scenario_C_simps isFinished_def)
  have e: "sourceNodes scenario_C ! 0 = Node 0" "processingNodes scenario_C ! 0 = Node 1"
    by (simp_all add: scenario_C_simps)
  have p: "prepareNodesForDestruction scenario_C
             = sweepProcessingNodes 0 (sweepSourceNodes 0 scenario_C)"
    by (simp add: prepareNodesForDestruction_def)
  from refcount_guard [of 0 scenario_C "Node 0"] h1 h2 h3 f show ?thesis
    unfolding e p by blast
qed

text \<open>
  The count a loop reads is the count of that moment: in the sweep below the processing
  node has two owners when the sweep begins, its vector entry and the edge from the source
  node; the cleanup of the source node releases the edge, and the loop over the processing
  nodes then reads 1 and retires the node in the same sweep.
\<close>

lemma released_in_same_sweep:
  "use_count chain (Node 1) = 2 \<and>
   calls (prepareNodesForDestruction chain) =
     [Cleanup (Node 0), TryAddNodeForDeconstruction (Node 0) True,
      Cleanup (Node 1), TryAddNodeForDeconstruction (Node 1) True] \<and>
   processingNodes (prepareNodesForDestruction chain) = []"
  by (simp add: prepare_pass after_sources_def chain_def idle_manager_def init_def idle_def
      pass.simps qualifies_def use_count_def isUnscheduled_def attempt_def AudioNode_cleanup_def
      tryAddNodeForDeconstruction_def set_vec_def Let_def)

section \<open>The playback guard\<close>

text \<open>
  Claim C2 (playback guard). A tracked source node whose playback state is PLAYING or
  SCHEDULED is not selected by the sweep, whatever its reference count reads: no cleanup
  call, no attempt to retire it, and it stays in the source-node vector.
\<close>

theorem playback_guard:
  assumes "s \<in> set (sourceNodes m)"
    and "playbackState (heap m s) = PLAYING \<or> playbackState (heap m s) = SCHEDULED"
  shows "Cleanup s \<notin> set (new_calls m (prepareNodesForDestruction m)) \<and>
         TryAddNodeForDeconstruction s True \<notin> set (new_calls m (prepareNodesForDestruction m)) \<and>
         TryAddNodeForDeconstruction s False \<notin> set (new_calls m (prepareNodesForDestruction m)) \<and>
         count_list (sourceNodes (prepareNodesForDestruction m)) s = count_list (sourceNodes m) s \<and>
         s \<in> set (sourceNodes (prepareNodesForDestruction m))"
proof -
  have "\<not> (isUnscheduled (heap m s) \<or> isFinished (heap m s))"
    using assms(2) by (auto simp: isUnscheduled_def isFinished_def)
  then have na: "s \<notin> fst ` set (sweep_attempts m)"
    by (rule sweep_not_attempted_playing [OF assms(1)])
  have c: "count_list (sourceNodes (prepareNodesForDestruction m)) s = count_list (sourceNodes m) s"
    by (rule sweep_untouched(3) [OF na])
  have "0 < count_list (sourceNodes (prepareNodesForDestruction m)) s"
    using count_list_pos [OF assms(1)] by (simp only: c)
  then have "s \<in> set (sourceNodes (prepareNodesForDestruction m))"
    using count_list_0_iff [of "sourceNodes (prepareNodesForDestruction m)" s] by simp
  then show ?thesis
    using sweep_untouched(1,2) [OF na] c by simp
qed

theorem playback_guard_witness:
  "Node 0 \<in> set (sourceNodes playing_unowned) \<and>
   playbackState (heap playing_unowned (Node 0)) = PLAYING \<and>
   use_count playing_unowned (Node 0) = 1 \<and>
   Cleanup (Node 0) \<notin> set (new_calls playing_unowned (prepareNodesForDestruction playing_unowned)) \<and>
   Node 0 \<in> set (sourceNodes (prepareNodesForDestruction playing_unowned))"
proof -
  have h1: "Node 0 \<in> set (sourceNodes playing_unowned)"
    by (simp add: playing_unowned_def)
  have h2: "playbackState (heap playing_unowned (Node 0)) = PLAYING"
    by (simp add: playing_unowned_def init_def)
  have "use_count playing_unowned (Node 0) = 1"
    by (simp add: playing_unowned_def init_def idle_def use_count_def)
  with playback_guard [OF h1 disjI1 [OF h2]] h1 h2 show ?thesis
    by simp
qed

section \<open>The drain\<close>

lemma disconnectAll_loop_frame [simp]:
  "audioParams (disconnectAll_loop src it m) = audioParams m"
  "sourceNodes (disconnectAll_loop src it m) = sourceNodes m"
  "processingNodes (disconnectAll_loop src it m) = processingNodes m"
  "nodeDeconstructor (disconnectAll_loop src it m) = nodeDeconstructor m"
  "receiver (disconnectAll_loop src it m) = receiver m"
  "heap (disconnectAll_loop src it m) = heap m"
  by (induction src it m rule: disconnectAll_loop.induct; simp add: Let_def disconnectNode_def)+

lemma dispatch_receiver: "dispatch v m = Inr m' \<Longrightarrow> receiver m' = receiver m"
  by (auto simp: dispatch_def handleConnectEvent_def handleDisconnectEvent_def
        handleDisconnectAllEvent_def handleAddToDeconstructionEvent_def
        connectNode_def connectParam_def disconnectNode_def disconnectParam_def
      split: ConnectionType.splits EventPayload.splits)

lemma settle_Nil: "receiver m = [] \<Longrightarrow> settlePendingConnections m = Inr m"
  by (subst settlePendingConnections.simps) simp

lemma settle_Cons:
  "receiver m = v # ch \<Longrightarrow>
   settlePendingConnections m =
     (case dispatch v (m\<lparr>receiver := ch\<rparr>) of
        Inl e \<Rightarrow> Inl e
      | Inr m' \<Rightarrow> settlePendingConnections m')"
  by (subst settlePendingConnections.simps) simp

lemma settle_unfold:
  "settlePendingConnections m =
     (case receiver m of
        [] \<Rightarrow> Inr m
      | v # ch \<Rightarrow>
          (case dispatch v (m\<lparr>receiver := ch\<rparr>) of
             Inl e \<Rightarrow> Inl e
           | Inr m' \<Rightarrow> settlePendingConnections m'))"
  by (cases "receiver m") (simp_all add: settle_Nil settle_Cons)

section \<open>Registration\<close>

lemma dispatch_vectors:
  assumes "dispatch v m = Inr m'"
  shows "sourceNodes m' = sourceNodes m @ added source_of [v]"
    and "processingNodes m' = processingNodes m @ added node_of [v]"
    and "audioParams m' = audioParams m @ added param_of [v]"
  using assms
  by (auto simp: dispatch_def handleConnectEvent_def handleDisconnectEvent_def
        handleDisconnectAllEvent_def handleAddToDeconstructionEvent_def
        connectNode_def connectParam_def disconnectNode_def disconnectParam_def
        source_of_def node_of_def param_of_def
      split: ConnectionType.splits EventPayload.splits)

lemma added_Cons: "added sel (v # vs) = added sel [v] @ added sel vs"
  by (simp split: option.splits)

lemma settle_vectors:
  "receiver m = evs \<Longrightarrow> settlePendingConnections m = Inr m' \<Longrightarrow>
   sourceNodes m' = sourceNodes m @ added source_of evs \<and>
   processingNodes m' = processingNodes m @ added node_of evs \<and>
   audioParams m' = audioParams m @ added param_of evs"
proof (induction evs arbitrary: m)
  case Nil
  then show ?case by (simp add: settle_Nil)
next
  case (Cons v ch)
  from Cons.prems obtain m1 where d: "dispatch v (m\<lparr>receiver := ch\<rparr>) = Inr m1"
    and s: "settlePendingConnections m1 = Inr m'"
    by (auto simp: settle_Cons split: sum.splits)
  have "receiver m1 = ch"
    using dispatch_receiver [OF d] by simp
  from Cons.IH [OF this s] dispatch_vectors [OF d] show ?case
    by (simp add: added_Cons [of _ v ch] del: added.simps)
qed




section \<open>Shutdown and the parameter vector\<close>

lemma fold_cleanup_frame [simp]:
  "sourceNodes (fold AudioNode_cleanup xs m) = sourceNodes m"
  "processingNodes (fold AudioNode_cleanup xs m) = processingNodes m"
  "calls (fold AudioNode_cleanup xs m) = calls m @ map Cleanup xs"
  by (induction xs arbitrary: m; simp add: AudioNode_cleanup_def)+

lemma cleanup_vectors:
  "sourceNodes (cleanup m) = []" "processingNodes (cleanup m) = []" "audioParams (cleanup m) = []"
  by (simp_all add: cleanup_def Let_def)

lemma cleanup_calls:
  "calls (cleanup m) = calls m @ map Cleanup (sourceNodes m) @ map Cleanup (processingNodes m)"
  by (simp add: cleanup_def Let_def)

lemma settle_audioParams:
  "settlePendingConnections m = Inr m' \<Longrightarrow> prefix (audioParams m) (audioParams m')"
  using settle_vectors [OF refl, of m m'] by simp

text \<open>
  Claim C9. The sweep leaves the parameter vector as it is and calls nothing but node
  cleanups and retire attempts; draining the event channel only ever extends the
  parameter vector; shutdown empties it, and the only calls shutdown makes are the
  cleanups of the nodes of the two node vectors.
\<close>

theorem sweep_keeps_params:
  "audioParams (prepareNodesForDestruction m) = audioParams m \<and>
   (\<exists>zs. new_calls m (prepareNodesForDestruction m) = pairs_log zs) \<and>
   (\<forall>m'. settlePendingConnections m = Inr m' \<longrightarrow> prefix (audioParams m) (audioParams m')) \<and>
   audioParams (cleanup m) = [] \<and>
   new_calls m (cleanup m) = map Cleanup (sourceNodes m) @ map Cleanup (processingNodes m)"
proof -
  have "\<exists>zs. new_calls m (prepareNodesForDestruction m) = pairs_log zs"
    using new_calls_prepare [of m] by (rule exI)
  then show ?thesis
    by (auto simp: settle_audioParams cleanup_vectors cleanup_calls new_calls_def)
qed

theorem sweep_keeps_params_witness:
  "\<exists>m'. settlePendingConnections (addAudioParam (Param 1) (idle_manager\<lparr>audioParams := [Param 0]\<rparr>)) = Inr m' \<and>
        audioParams m' = [Param 0, Param 1] \<and>
        prefix (audioParams (addAudioParam (Param 1) (idle_manager\<lparr>audioParams := [Param 0]\<rparr>))) (audioParams m')"
proof -
  let ?m = "addAudioParam (Param 1) (idle_manager\<lparr>audioParams := [Param 0]\<rparr>)"
  have r: "receiver ?m = [\<lparr>etype = ADD, payload = AUDIO_PARAM (Param 1)\<rparr>]"
    by (simp add: addAudioParam_def idle_manager_def init_def send_def)
  have "settlePendingConnections ?m = Inr (?m\<lparr>receiver := [], audioParams := [Param 0, Param 1]\<rparr>)"
    by (simp add: settle_unfold dispatch_def handleAddToDeconstructionEvent_def
          addAudioParam_def idle_manager_def init_def send_def)
  moreover from this sweep_keeps_params [of ?m]
  have "prefix (audioParams ?m) (audioParams (?m\<lparr>receiver := [], audioParams := [Param 0, Param 1]\<rparr>))"
    by blast
  ultimately show ?thesis
    by simp
qed

section \<open>Disconnecting all outputs\<close>

lemma removeAll_map_snd:
  "map snd (filter (\<lambda>e. fst e = f) (removeAll (f, x) es))
     = removeAll x (map snd (filter (\<lambda>e. fst e = f) es))"
  by (induction es) auto

lemma disconnectNode_simps [simp]:
  "outputNodes (disconnectNode f x m) f = removeAll x (outputNodes m f)"
  "calls (disconnectNode f x m) = calls m @ [DisconnectNode f x]"
  by (simp_all add: disconnectNode_def outputNodes_def removeAll_map_snd)

lemma disconnectAll_loop_distinct:
  "distinct (x # rest) \<Longrightarrow> outputNodes m f = x # rest \<Longrightarrow>
   outputNodes (disconnectAll_loop f (Some x) m) f = [] \<and>
   calls (disconnectAll_loop f (Some x) m) = calls m @ map (DisconnectNode f) (x # rest)"
proof (induction rest arbitrary: x m)
  case Nil
  then show ?case
    by (simp add: std_begin_def)
next
  case (Cons y ys)
  let ?m1 = "disconnectNode f x m"
  have nxt: "std_next (outputNodes m f) x = Some y"
    using Cons.prems by (simp add: std_begin_def)
  have out1: "outputNodes ?m1 f = y # ys"
    using Cons.prems by simp
  have "distinct (y # ys)"
    using Cons.prems by simp
  from Cons.IH [OF this out1] nxt show ?case
    by simp
qed

lemma count_list_distinct_map:
  "distinct xs \<Longrightarrow> x \<in> set xs \<Longrightarrow> inj g \<Longrightarrow> count_list (map g xs) (g x) = 1"
  by (induction xs) (auto simp: inj_eq count_list_0_iff)

text \<open>
  Claim C7 (disconnect-all). For a node whose outgoing edges form a set (no edge twice),
  one DISCONNECT_ALL event disconnects every edge exactly once, in iteration order, and
  leaves the node without outgoing edges, although each disconnect shrinks the collection
  the loop iterates over.
\<close>

theorem disconnect_all_once:
  assumes "distinct (outputNodes m src)"
  shows "\<exists>m'. dispatch \<lparr>etype = DISCONNECT_ALL, payload = NODES src dst\<rparr> m = Inr m' \<and>
           outputNodes m' src = [] \<and>
           new_calls m m' = map (DisconnectNode src) (outputNodes m src) \<and>
           (\<forall>x \<in> set (outputNodes m src).
              count_list (new_calls m m') (DisconnectNode src x) = 1)"
proof -
  let ?outs = "outputNodes m src"
  let ?m' = "disconnectAll_loop src (std_begin ?outs) m"
  have d: "dispatch \<lparr>etype = DISCONNECT_ALL, payload = NODES src dst\<rparr> m = Inr ?m'"
    by (simp add: dispatch_def handleDisconnectAllEvent_def)
  have e: "outputNodes ?m' src = [] \<and> calls ?m' = calls m @ map (DisconnectNode src) ?outs"
  proof (cases ?outs)
    case Nil
    then show ?thesis by (simp add: std_begin_def)
  next
    case (Cons x rest)
    with assms have "distinct (x # rest)" by simp
    from disconnectAll_loop_distinct [OF this Cons] Cons show ?thesis
      by (simp add: std_begin_def)
  qed
  then have n: "new_calls m ?m' = map (DisconnectNode src) ?outs"
    by (simp add: new_calls_def)
  have "inj (DisconnectNode src)"
    by (rule injI) simp
  then have "\<forall>x \<in> set ?outs. count_list (new_calls m ?m') (DisconnectNode src x) = 1"
    using assms n by (simp add: count_list_distinct_map)
  with d e n show ?thesis by blast
qed

theorem disconnect_all_once_witness:
  "distinct (outputNodes fan_out (Node 0)) \<and>
   outputNodes fan_out (Node 0) = [Node 1, Node 2, Node 3] \<and>
   (\<exists>m'. dispatch \<lparr>etype = DISCONNECT_ALL, payload = NODES (Node 0) (Node 0)\<rparr> fan_out = Inr m' \<and>
      outputNodes m' (Node 0) = [] \<and>
      new_calls fan_out m' =
        [DisconnectNode (Node 0) (Node 1), DisconnectNode (Node 0) (Node 2),
         DisconnectNode (Node 0) (Node 3)])"
proof -
  have o: "outputNodes fan_out (Node 0) = [Node 1, Node 2, Node 3]"
    by (simp add: fan_out_def outputNodes_def)
  then have h: "distinct (outputNodes fan_out (Node 0))"
    by simp
  from disconnect_all_once [OF h, of "Node 0"] o h show ?thesis
    by auto
qed

end
